theory Spec2Isabelle
  imports Main "HOL-Library.Sublist"
begin

section \<open>JavaScript strings and the primitives the component uses\<close>

text \<open>
  A JavaScript string is a sequence of UTF-16 code units. The model uses \<^typ>\<open>string\<close>,
  so it covers the code units U+0000 to U+00FF; every definition below reads code units
  one by one, as the engine does.

  \<open>is_ws\<close> is the class \<^verbatim>\<open>\s\<close> of regular expressions, which is also the set
  that \<^verbatim>\<open>String.prototype.trim\<close> strips (WhiteSpace and LineTerminator): in this range
  TAB, LF, VT, FF, CR, SPACE and NBSP. \<open>is_lt\<close> is LineTerminator, the set that the
  regular expression \<^verbatim>\<open>.\<close> refuses: LF and CR.
\<close>

definition code_unit :: "char \<Rightarrow> nat" where
  "code_unit c = of_char c"

definition is_ws :: "char \<Rightarrow> bool" where
  "is_ws c = (c \<in> set [CHR 0x09, CHR 0x0A, CHR 0x0B, CHR 0x0C, CHR 0x0D, CHR 0x20, CHR 0xA0])"

definition is_lt :: "char \<Rightarrow> bool" where
  "is_lt c = (c = CHR 0x0A \<or> c = CHR 0x0D)"

definition is_dot :: "char \<Rightarrow> bool" where
  "is_dot c = (\<not> is_lt c)"

definition is_hash :: "char \<Rightarrow> bool" where
  "is_hash c = (c = CHR ''#'')"

text \<open>\<^verbatim>\<open>s.trim()\<close>: whitespace removed at both ends.\<close>

definition trim :: "string \<Rightarrow> string" where
  "trim s = rev (dropWhile is_ws (rev (dropWhile is_ws s)))"

text \<open>\<^verbatim>\<open>s.includes(pat)\<close>: \<open>pat\<close> occurs in \<open>s\<close> as a contiguous run.\<close>

fun js_includes :: "string \<Rightarrow> string \<Rightarrow> bool" where
  "js_includes [] pat = (pat = [])"
| "js_includes (c # cs) pat = (prefix pat (c # cs) \<or> js_includes cs pat)"



text \<open>Decimal rendering of a non-negative integer, as template literals print it.\<close>

definition digit_char :: "nat \<Rightarrow> char" where
  "digit_char d = ''0123456789'' ! (d mod 10)"

fun dec :: "nat \<Rightarrow> string" where
  "dec n = (if n < 10 then [digit_char n] else dec (n div 10) @ [digit_char (n mod 10)])"

declare dec.simps [simp del]

text \<open>
  \<^verbatim>\<open>markdown.split(/\r?\n/)\<close>: the text is cut at every LF, and a CR directly before
  that LF belongs to the separator. \<^verbatim>\<open>chunk.split('\n')\<close> cuts at every LF and
  leaves a CR in the line. Neither result is ever empty: the empty string gives one empty
  line.
\<close>

definition cons_first :: "char \<Rightarrow> string list \<Rightarrow> string list" where
  "cons_first c ls = (case ls of [] \<Rightarrow> [[c]] | l # r \<Rightarrow> (c # l) # r)"

fun split_lines :: "string \<Rightarrow> string list" where
  "split_lines [] = [[]]"
| "split_lines (c # cs) =
     (if c = CHR 0x0A then [] # split_lines cs
      else (case cs of
              d # ds \<Rightarrow> if c = CHR 0x0D \<and> d = CHR 0x0A then [] # split_lines ds
                        else cons_first c (split_lines cs)
            | [] \<Rightarrow> cons_first c (split_lines cs)))"

fun split_nl :: "string \<Rightarrow> string list" where
  "split_nl [] = [[]]"
| "split_nl (c # cs) =
     (if c = CHR 0x0A then [] # split_nl cs else cons_first c (split_nl cs))"



text \<open>
  \<^verbatim>\<open>s.replace(/pat\n?/g, '')\<close> for a literal, non-empty \<open>pat\<close>: scanning from the
  left, every occurrence of \<open>pat\<close> is removed together with one LF that follows it
  directly, and the scan goes on behind what was removed.
\<close>

definition drop_nl :: "string \<Rightarrow> string" where
  "drop_nl s = (case s of [] \<Rightarrow> [] | d # ds \<Rightarrow> if d = CHR 0x0A then ds else s)"

function remove_all :: "string \<Rightarrow> string \<Rightarrow> string" where
  "remove_all pat [] = []"
| "remove_all pat (c # cs) =
     (if pat \<noteq> [] \<and> prefix pat (c # cs)
      then remove_all pat (drop_nl (drop (length pat) (c # cs)))
      else c # remove_all pat cs)"
  by pat_completeness auto
termination
proof (relation "measure (\<lambda>(pat, s). length s)", goal_cases)
  case 1
  show ?case by simp
next
  case (2 pat c cs)
  then obtain p ps where pat: "pat = p # ps"
    by (cases pat) auto
  have "length (drop_nl t) \<le> length t" for t
    by (simp add: drop_nl_def split: list.splits)
  then have "length (drop_nl (drop (length ps) cs)) \<le> length (drop (length ps) cs)" .
  also have "\<dots> \<le> length cs"
    by simp
  finally show ?case
    by (simp add: pat less_Suc_eq_le)
next
  case (3 pat c cs)
  show ?case by simp
qed

subsection \<open>Anchored regular expressions made of quantified character classes\<close>

text \<open>
  The heading rule is \<^verbatim>\<open>/^(#{1,6})\s+(.+)$/\<close>: three greedy quantified character
  classes between the two anchors. \<open>match_seq\<close> is the backtracking matcher for such
  an expression: each item \<open>(p, lo, hi)\<close> first takes as many characters of class \<open>p\<close> as
  it may (at most \<open>hi\<close>), and gives them back one at a time, down to \<open>lo\<close>, until the
  rest of the expression matches the rest of the input up to its end. The result is
  the text taken by each item in the first match found, which is the match
  \<^verbatim>\<open>RegExp.prototype.exec\<close> reports.
\<close>

fun first_some :: "'a option list \<Rightarrow> 'a option" where
  "first_some [] = None"
| "first_some (None # xs) = first_some xs"
| "first_some (Some x # xs) = Some x"

type_synonym item = "(char \<Rightarrow> bool) \<times> nat \<times> nat option"

fun match_seq :: "item list \<Rightarrow> string \<Rightarrow> string list option" where
  "match_seq [] s = (if s = [] then Some [] else None)"
| "match_seq ((p, lo, hi) # items) s =
     (let avail = length (takeWhile p s);
          kmax = (case hi of None \<Rightarrow> avail | Some h \<Rightarrow> min h avail)
      in first_some (map (\<lambda>k. map_option ((#) (take k s)) (match_seq items (drop k s)))
                         (rev [lo ..< Suc kmax])))"

definition heading_regex :: "item list" where
  "heading_regex = [(is_hash, 1, Some 6), (is_ws, 1, None), (is_dot, 1, None)]"

text \<open>The two capture groups of the heading rule, when the line matches.\<close>

definition headingMatch :: "string \<Rightarrow> (string \<times> string) option" where
  "headingMatch line =
     (case match_seq heading_regex line of
        Some [g1, sp, g2] \<Rightarrow> Some (g1, g2)
      | _ \<Rightarrow> None)"

section \<open>Sections and the markdown splitter\<close>

record Section =
  section_id :: string
  heading :: string
  body :: string
  code :: "string option"
  mermaidCode :: "string option"

text \<open>
  The field \<open>section_id\<close> is the property \<open>id\<close> of the component's type; an optional
  property that is not set is \<open>None\<close>.

  \<open>pushCurrent\<close> appends the open section, its body trimmed, to the result.
\<close>

definition pushCurrent :: "Section option \<Rightarrow> Section list \<Rightarrow> Section list" where
  "pushCurrent current secs =
     (case current of
        None \<Rightarrow> secs
      | Some c \<Rightarrow> secs @ [c\<lparr>body := trim (body c)\<rparr>])"

text \<open>
  The identifier of a new section is the number of sections pushed so far, a dash, and
  the reading of \<^verbatim>\<open>Date.now()\<close>. The clock is the parameter \<open>now\<close>: \<open>now i\<close> is
  the reading while line \<open>i\<close> is processed.
\<close>

definition newSection :: "(nat \<Rightarrow> nat) \<Rightarrow> nat \<Rightarrow> Section list \<Rightarrow> string \<Rightarrow> string \<Rightarrow> Section" where
  "newSection now i secs h b =
     \<lparr>section_id = dec (length secs) @ ''-'' @ dec (now i),
      heading = h, body = b, code = None, mermaidCode = None\<rparr>"

fun segment_loop ::
  "(nat \<Rightarrow> nat) \<Rightarrow> nat \<Rightarrow> Section list \<Rightarrow> Section option \<Rightarrow> string list \<Rightarrow> Section list" where
  "segment_loop now i secs current [] = pushCurrent current secs"
| "segment_loop now i secs current (line # rest) =
     (case headingMatch line of
        Some (g1, g2) \<Rightarrow>
          (let secs' = pushCurrent current secs
           in segment_loop now (Suc i) secs'
                (Some (newSection now i secs' (trim g2) [])) rest)
      | None \<Rightarrow>
          (case current of
             Some c \<Rightarrow>
               segment_loop now (Suc i) secs
                 (Some (c\<lparr>body := body c @ line @ [CHR 0x0A]\<rparr>)) rest
           | None \<Rightarrow>
               segment_loop now (Suc i) secs
                 (Some (newSection now i secs ''Introduction'' (line @ [CHR 0x0A]))) rest))"

definition splitMarkdownIntoSections :: "(nat \<Rightarrow> nat) \<Rightarrow> string \<Rightarrow> Section list" where
  "splitMarkdownIntoSections now markdown = segment_loop now 0 [] None (split_lines markdown)"

text \<open>The content of a section: its heading and body, the identifier left out.\<close>

definition content :: "Section \<Rightarrow> string \<times> string" where
  "content s = (heading s, body s)"

text \<open>
  The specification's round trip writes the sections back as markdown; the component has
  no such function. \<open>reemit\<close> follows the specification's words: each section, in
  order, as a heading line of level one followed by its body.
\<close>

definition reemit_section :: "Section \<Rightarrow> string" where
  "reemit_section s = ''# '' @ heading s @ [CHR 0x0A] @ body s @ [CHR 0x0A]"

definition reemit :: "Section list \<Rightarrow> string" where
  "reemit secs = concat (map reemit_section secs)"

text \<open>
  The sections that survive the round trip: the heading is not empty, the body holds no
  CR directly before an LF, and no line of the body is a heading line.
\<close>

definition reemittable :: "Section \<Rightarrow> bool" where
  "reemittable s =
     (heading s \<noteq> [] \<and> \<not> js_includes (body s) [CHR 0x0D, CHR 0x0A]
      \<and> list_all (\<lambda>l. headingMatch l = None) (split_lines (body s)))"

text \<open>
  What \<open>pushCurrent\<close> and the heading rule leave in a section: a trimmed body, and a
  trimmed heading without line terminators.
\<close>

definition tidy_heading :: "Section \<Rightarrow> bool" where
  "tidy_heading s = (trim (heading s) = heading s \<and> list_all is_dot (heading s))"

definition tidy :: "Section \<Rightarrow> bool" where
  "tidy s = (tidy_heading s \<and> trim (body s) = body s)"

section \<open>The engine's JSON values\<close>

text \<open>
  \<^verbatim>\<open>JSON.parse\<close> belongs to the engine, not to the component. The decoder below takes
  it as a parameter, so that its theorems hold for every parser; \<open>JSON_parse\<close> is a
  model of the engine's parser on the code units of the model, used to evaluate the
  decoder on concrete streams. A number is kept as the numeral that was read. An object
  keeps its members in the order read; a later member with the same key wins.
\<close>

datatype json =
    JNull
  | JBool bool
  | JNum string
  | JStr string
  | JArr "json list"
  | JObj "(string \<times> json) list"

datatype error = SyntaxError | TypeError | HttpError string | NetworkError

definition json_ws :: "char \<Rightarrow> bool" where
  "json_ws c = (c = CHR 0x20 \<or> c = CHR 0x09 \<or> c = CHR 0x0A \<or> c = CHR 0x0D)"

definition skip_ws :: "string \<Rightarrow> string" where
  "skip_ws s = dropWhile json_ws s"

definition is_digit :: "char \<Rightarrow> bool" where
  "is_digit c = (48 \<le> code_unit c \<and> code_unit c \<le> 57)"

definition hex_val :: "char \<Rightarrow> nat option" where
  "hex_val c =
     (if 48 \<le> code_unit c \<and> code_unit c \<le> 57 then Some (code_unit c - 48)
      else if 97 \<le> code_unit c \<and> code_unit c \<le> 102 then Some (code_unit c - 87)
      else if 65 \<le> code_unit c \<and> code_unit c \<le> 70 then Some (code_unit c - 55)
      else None)"

definition hex4 :: "string \<Rightarrow> nat option" where
  "hex4 s =
     (case map hex_val s of
        [Some a, Some b, Some c, Some d] \<Rightarrow> Some (((a * 16 + b) * 16 + c) * 16 + d)
      | _ \<Rightarrow> None)"

definition simple_escape :: "char \<Rightarrow> char option" where
  "simple_escape e =
     (if e = CHR 0x22 then Some (CHR 0x22)
      else if e = CHR 0x5C then Some (CHR 0x5C)
      else if e = CHR ''/'' then Some (CHR ''/'')
      else if e = CHR ''b'' then Some (CHR 0x08)
      else if e = CHR ''f'' then Some (CHR 0x0C)
      else if e = CHR ''n'' then Some (CHR 0x0A)
      else if e = CHR ''r'' then Some (CHR 0x0D)
      else if e = CHR ''t'' then Some (CHR 0x09)
      else None)"

definition cons_res :: "'a \<Rightarrow> ('a list \<times> 'b) option \<Rightarrow> ('a list \<times> 'b) option" where
  "cons_res x r = (case r of None \<Rightarrow> None | Some (xs, rest) \<Rightarrow> Some (x # xs, rest))"

text \<open>
  The characters of a string literal after its opening quote, up to the closing quote.
  An escape \<^verbatim>\<open>\uXXXX\<close> above U+00FF names a code unit outside the model, and the
  model refuses the text there.
\<close>

function parse_string_body :: "string \<Rightarrow> (string \<times> string) option" where
  "parse_string_body [] = None"
| "parse_string_body (c # cs) =
     (if c = CHR 0x22 then Some ([], cs)
      else if c = CHR 0x5C then
        (case cs of
           [] \<Rightarrow> None
         | e # r \<Rightarrow>
             if e = CHR ''u'' then
               (case hex4 (take 4 r) of
                  None \<Rightarrow> None
                | Some n \<Rightarrow>
                    if n < 256 then cons_res (char_of n) (parse_string_body (drop 4 r))
                    else None)
             else
               (case simple_escape e of
                  None \<Rightarrow> None
                | Some ch \<Rightarrow> cons_res ch (parse_string_body r)))
      else if code_unit c < 32 then None
      else cons_res c (parse_string_body cs))"
  by pat_completeness auto
termination
  by (relation "measure length") auto

definition digits1 :: "string \<Rightarrow> (string \<times> string) option" where
  "digits1 s =
     (let d = takeWhile is_digit s
      in if d = [] then None else Some (d, dropWhile is_digit s))"

definition parse_int_part :: "string \<Rightarrow> (string \<times> string) option" where
  "parse_int_part s =
     (case s of
        [] \<Rightarrow> None
      | c # cs \<Rightarrow> if c = CHR ''0'' then Some ([c], cs)
                  else if is_digit c then digits1 s
                  else None)"

definition parse_frac :: "string \<Rightarrow> (string \<times> string) option" where
  "parse_frac s =
     (case s of
        c # cs \<Rightarrow> if c = CHR ''.'' then map_option (apfst ((#) c)) (digits1 cs) else Some ([], s)
      | [] \<Rightarrow> Some ([], s))"

definition parse_exp :: "string \<Rightarrow> (string \<times> string) option" where
  "parse_exp s =
     (case s of
        c # cs \<Rightarrow>
          if c = CHR ''e'' \<or> c = CHR ''E'' then
            (case cs of
               d # ds \<Rightarrow> if d = CHR ''+'' \<or> d = CHR ''-''
                          then map_option (apfst (\<lambda>x. c # d # x)) (digits1 ds)
                          else map_option (apfst ((#) c)) (digits1 cs)
             | [] \<Rightarrow> None)
          else Some ([], s)
      | [] \<Rightarrow> Some ([], s))"

definition parse_number :: "string \<Rightarrow> (json \<times> string) option" where
  "parse_number s =
     (let (sign, s1) = (case s of
                          c # cs \<Rightarrow> if c = CHR ''-'' then ([c], cs) else ([], s)
                        | [] \<Rightarrow> ([], s))
      in case parse_int_part s1 of
           None \<Rightarrow> None
         | Some (ip, s2) \<Rightarrow>
             (case parse_frac s2 of
                None \<Rightarrow> None
              | Some (fp, s3) \<Rightarrow>
                  (case parse_exp s3 of
                     None \<Rightarrow> None
                   | Some (ep, s4) \<Rightarrow> Some (JNum (sign @ ip @ fp @ ep), s4))))"

definition parse_literal :: "string \<Rightarrow> (json \<times> string) option" where
  "parse_literal s =
     (if prefix ''true'' s then Some (JBool True, drop 4 s)
      else if prefix ''false'' s then Some (JBool False, drop 5 s)
      else if prefix ''null'' s then Some (JNull, drop 4 s)
      else None)"

text \<open>
  The recursive descent takes a bound \<open>n\<close> on the calls still allowed, which makes the
  three functions structurally recursive; \<open>JSON_parse\<close> starts with two calls per
  character. A text nested deeper than the bound is refused, as an engine at the end
  of its stack refuses it.
\<close>

fun parse_value :: "nat \<Rightarrow> string \<Rightarrow> (json \<times> string) option"
and parse_elements :: "nat \<Rightarrow> string \<Rightarrow> (json list \<times> string) option"
and parse_members :: "nat \<Rightarrow> string \<Rightarrow> ((string \<times> json) list \<times> string) option" where
  "parse_value 0 s = None"
| "parse_value (Suc n) s =
     (case skip_ws s of
        [] \<Rightarrow> None
      | c # cs \<Rightarrow>
          if c = CHR ''{'' then
            (case skip_ws cs of
               [] \<Rightarrow> None
             | d # ds \<Rightarrow> if d = CHR ''}'' then Some (JObj [], ds)
                         else map_option (apfst JObj) (parse_members n cs))
          else if c = CHR ''['' then
            (case skip_ws cs of
               [] \<Rightarrow> None
             | d # ds \<Rightarrow> if d = CHR '']'' then Some (JArr [], ds)
                         else map_option (apfst JArr) (parse_elements n cs))
          else if c = CHR 0x22 then map_option (apfst JStr) (parse_string_body cs)
          else if c = CHR ''-'' \<or> is_digit c then parse_number (c # cs)
          else parse_literal (c # cs))"
| "parse_elements 0 s = None"
| "parse_elements (Suc n) s =
     (case parse_value n s of
        None \<Rightarrow> None
      | Some (v, r) \<Rightarrow>
          (case skip_ws r of
             [] \<Rightarrow> None
           | c # cs \<Rightarrow> if c = CHR '','' then cons_res v (parse_elements n cs)
                       else if c = CHR '']'' then Some ([v], cs)
                       else None))"
| "parse_members 0 s = None"
| "parse_members (Suc n) s =
     (case skip_ws s of
        [] \<Rightarrow> None
      | q # s1 \<Rightarrow>
          if q \<noteq> CHR 0x22 then None
          else
            (case parse_string_body s1 of
               None \<Rightarrow> None
             | Some (k, s2) \<Rightarrow>
                 (case skip_ws s2 of
                    [] \<Rightarrow> None
                  | colon # s3 \<Rightarrow>
                      if colon \<noteq> CHR '':'' then None
                      else
                        (case parse_value n s3 of
                           None \<Rightarrow> None
                         | Some (v, r) \<Rightarrow>
                             (case skip_ws r of
                                [] \<Rightarrow> None
                              | c # cs \<Rightarrow>
                                  if c = CHR '','' then cons_res (k, v) (parse_members n cs)
                                  else if c = CHR ''}'' then Some ([(k, v)], cs)
                                  else None)))))"

definition JSON_parse :: "string \<Rightarrow> error + json" where
  "JSON_parse s =
     (case parse_value (2 * length s + 2) s of
        None \<Rightarrow> Inl SyntaxError
      | Some (v, r) \<Rightarrow> if skip_ws r = [] then Inr v else Inl SyntaxError)"

section \<open>The stream decoder\<close>

text \<open>
  What the decoder does with a parsed value, for the two keys it reads, \<open>type\<close> and
  \<open>textDelta\<close>; neither is a property of a built-in prototype, so only an object's own
  members answer. Reading a property of \<open>null\<close> throws a TypeError; every other
  value that is not an object gives \<open>undefined\<close>, here \<open>None\<close>.
\<close>

definition js_get :: "json \<Rightarrow> string \<Rightarrow> error + json option" where
  "js_get v k =
     (case v of
        JNull \<Rightarrow> Inl TypeError
      | JObj members \<Rightarrow> Inr (map_of (rev members) k)
      | _ \<Rightarrow> Inr None)"

text \<open>
  Truthiness, as \<^verbatim>\<open>&&\<close> tests it. A number is false when it is zero: every digit of
  its numeral before the exponent is 0 (a numeral so small that it rounds to zero is
  outside the model).
\<close>

definition num_is_zero :: "string \<Rightarrow> bool" where
  "num_is_zero l =
     list_all (\<lambda>c. c = CHR ''0'')
       (filter is_digit (takeWhile (\<lambda>c. c \<noteq> CHR ''e'' \<and> c \<noteq> CHR ''E'') l))"

definition js_truthy :: "json option \<Rightarrow> bool" where
  "js_truthy v =
     (case v of
        None \<Rightarrow> False
      | Some JNull \<Rightarrow> False
      | Some (JBool b) \<Rightarrow> b
      | Some (JNum l) \<Rightarrow> \<not> num_is_zero l
      | Some (JStr s) \<Rightarrow> s \<noteq> []
      | Some (JArr xs) \<Rightarrow> True
      | Some (JObj ms) \<Rightarrow> True)"

text \<open>
  The text that \<^verbatim>\<open>+=\<close> appends for a value: a string as it is; an array as its
  elements joined by commas, \<open>null\<close> elements empty; an object as \<^verbatim>\<open>[object Object]\<close>,
  unless it has a member named \<open>toString\<close>, which hides the inherited method, is not
  callable, and makes the conversion throw a TypeError. A number is printed as the
  numeral that was read. The engine prints the nearest double instead: that is the same
  text only for an integer below \<open>2 ^ 53\<close> in magnitude that is written without
  leading zero, negative zero, fraction or exponent, and the model is exact on numbers
  for those alone.
\<close>

fun js_to_text :: "json \<Rightarrow> error + string"
and js_join :: "json list \<Rightarrow> error + string" where
  "js_to_text JNull = Inr ''null''"
| "js_to_text (JBool b) = Inr (if b then ''true'' else ''false'')"
| "js_to_text (JNum l) = Inr l"
| "js_to_text (JStr s) = Inr s"
| "js_to_text (JArr xs) = js_join xs"
| "js_to_text (JObj ms) =
     (if ''toString'' \<in> set (map fst ms) then Inl TypeError else Inr ''[object Object]'')"
| "js_join [] = Inr []"
| "js_join (x # xs) =
     (case (if x = JNull then Inr [] else js_to_text x) of
        Inl e \<Rightarrow> Inl e
      | Inr t \<Rightarrow>
          (if xs = [] then Inr t
           else (case js_join xs of Inl e \<Rightarrow> Inl e | Inr r \<Rightarrow> Inr (t @ '','' @ r))))"

text \<open>
  The body of the \<^verbatim>\<open>try\<close> block for one line that starts with \<^verbatim>\<open>0:\<close>: the
  accumulated text afterwards, or the exception thrown.
\<close>

definition tryLine :: "(string \<Rightarrow> error + json) \<Rightarrow> string \<Rightarrow> string \<Rightarrow> error + string" where
  "tryLine parse acc line =
     (case parse (drop 2 line) of
        Inl e \<Rightarrow> Inl e
      | Inr data \<Rightarrow>
          (case js_get data ''type'' of
             Inl e \<Rightarrow> Inl e
           | Inr ty \<Rightarrow>
               if ty \<noteq> Some (JStr ''text-delta'') then Inr acc
               else
                 (case js_get data ''textDelta'' of
                    Inl e \<Rightarrow> Inl e
                  | Inr td \<Rightarrow>
                      if \<not> js_truthy td then Inr acc
                      else
                        (case td of
                           None \<Rightarrow> Inr acc
                         | Some v \<Rightarrow>
                             (case js_to_text v of
                                Inl e \<Rightarrow> Inl e
                              | Inr t \<Rightarrow> Inr (acc @ t))))))"

text \<open>One line: the \<^verbatim>\<open>catch\<close> clause is empty, so an exception leaves the text as it was.\<close>

definition processLine :: "(string \<Rightarrow> error + json) \<Rightarrow> string \<Rightarrow> string \<Rightarrow> string" where
  "processLine parse acc line =
     (if prefix ''0:'' line
      then (case tryLine parse acc line of Inl e \<Rightarrow> acc | Inr acc' \<Rightarrow> acc')
      else acc)"

text \<open>
  One chunk, already decoded to text: it is split at LF and its lines are processed in
  order. Nothing but the accumulated text goes from one chunk to the next.
\<close>

definition processChunk :: "(string \<Rightarrow> error + json) \<Rightarrow> string \<Rightarrow> string \<Rightarrow> string" where
  "processChunk parse acc chunk = foldl (processLine parse) acc (split_nl chunk)"

definition decodeChunks :: "(string \<Rightarrow> error + json) \<Rightarrow> string list \<Rightarrow> string" where
  "decodeChunks parse chunks = foldl (processChunk parse) [] chunks"

text \<open>
  The text delta that one line carries: the text of its \<open>textDelta\<close> member when the
  line starts with the marker, its remainder parses, the value's \<open>type\<close> is
  \<^verbatim>\<open>text-delta\<close> and the member is truthy and can be converted to text; the empty
  text for every other line.
\<close>

definition lineDelta :: "(string \<Rightarrow> error + json) \<Rightarrow> string \<Rightarrow> string" where
  "lineDelta parse line =
     (if \<not> prefix ''0:'' line then []
      else
        (case parse (drop 2 line) of
           Inl e \<Rightarrow> []
         | Inr data \<Rightarrow>
             (case js_get data ''type'' of
                Inl e \<Rightarrow> []
              | Inr ty \<Rightarrow>
                  if ty \<noteq> Some (JStr ''text-delta'') then []
                  else
                    (case js_get data ''textDelta'' of
                       Inl e \<Rightarrow> []
                     | Inr None \<Rightarrow> []
                     | Inr (Some v) \<Rightarrow>
                         if \<not> js_truthy (Some v) then []
                         else (case js_to_text v of Inl e \<Rightarrow> [] | Inr t \<Rightarrow> t)))))"

text \<open>Lines joined by LF, the inverse of \<open>split_nl\<close> on lines without LF.\<close>

fun join_nl :: "string list \<Rightarrow> string" where
  "join_nl [] = []"
| "join_nl [l] = l"
| "join_nl (l # m # ls) = l @ [CHR 0x0A] @ join_nl (m # ls)"

text \<open>
  The clean-up of the decoded text. \<open>cleanMermaid\<close> is the one of
  \<open>generateMermaidDiagram\<close>, \<open>cleanChat\<close> the one of \<open>handleChatSubmit\<close>, which also
  removes the fence tagged html.
\<close>

definition fence :: string where
  "fence = [CHR 0x60, CHR 0x60, CHR 0x60]"

definition cleanMermaid :: "string \<Rightarrow> string" where
  "cleanMermaid s = trim (remove_all fence (remove_all (fence @ ''mermaid'') s))"

definition cleanChat :: "string \<Rightarrow> string" where
  "cleanChat s =
     trim (remove_all fence (remove_all (fence @ ''html'') (remove_all (fence @ ''mermaid'') s)))"

text \<open>
  Payloads written as text with fence markers in it, for the statements about the
  clean-up: \<open>fenced t ps\<close> is the text \<open>t\<close> followed, for each pair \<open>(tag, u)\<close> of
  \<open>ps\<close>, by a fence with that tag and the text \<open>u\<close>; \<open>unfenced t ps\<close> is the same
  payload without the markers and without the LF that directly follows a marker. A
  text is \<open>plain\<close> when it holds no backtick, so that every backtick of the payload
  belongs to a marker.
\<close>

definition plain :: "string \<Rightarrow> bool" where
  "plain t = (CHR 0x60 \<notin> set t)"

fun fenced :: "string \<Rightarrow> (string \<times> string) list \<Rightarrow> string" where
  "fenced t [] = t"
| "fenced t ((tag, u) # ps) = t @ fence @ tag @ fenced u ps"

fun unfenced :: "string \<Rightarrow> (string \<times> string) list \<Rightarrow> string" where
  "unfenced t [] = t"
| "unfenced t ((tag, u) # ps) = t @ unfenced (drop_nl u) ps"

text \<open>
  The next marker, if there is one, has none of the given tags.
\<close>

definition next_tag_not :: "string list \<Rightarrow> (string \<times> string) list \<Rightarrow> bool" where
  "next_tag_not tags ps = (case ps of [] \<Rightarrow> True | (tag, u) # rest \<Rightarrow> tag \<notin> set tags)"

text \<open>
  The marked payloads on which each clean-up is described. The texts are plain and the
  tags are those the clean-up knows. The text after a marker without tag does not begin
  like a tag. Where a marker is directly followed by another marker, the second one is
  not removed by an earlier pass than the first (the passes are: mermaid, then html in
  \<open>cleanChat\<close>, then the fence without tag), since an earlier pass would bring the text
  behind the second marker up to the first.
\<close>

fun marked_mermaid :: "(string \<times> string) list \<Rightarrow> bool" where
  "marked_mermaid [] = True"
| "marked_mermaid ((tag, u) # ps) =
     (plain u
      \<and> (tag = ''mermaid''
         \<or> (tag = [] \<and> \<not> prefix ''mermaid'' u \<and> (u \<noteq> [] \<or> next_tag_not [''mermaid''] ps)))
      \<and> marked_mermaid ps)"

fun marked_chat :: "(string \<times> string) list \<Rightarrow> bool" where
  "marked_chat [] = True"
| "marked_chat ((tag, u) # ps) =
     (plain u
      \<and> (tag = ''mermaid''
         \<or> (tag = ''html'' \<and> (u \<noteq> [] \<or> next_tag_not [''mermaid''] ps))
         \<or> (tag = [] \<and> \<not> prefix ''mermaid'' u \<and> \<not> prefix ''h'' u
             \<and> (u \<noteq> [] \<or> next_tag_not [''mermaid'', ''html''] ps)))
      \<and> marked_chat ps)"

section \<open>The preview renderer\<close>

text \<open>The three fixed texts of \<open>UnifiedCanvas\<close>, line by line.\<close>

definition defaultBlankSnippet_lines :: "string list" where
  \<open>defaultBlankSnippet_lines =
     [''<!doctype html>'',
      ''<html>'',
      ''  <head>'',
      ''    <meta charset="utf-8" />'',
      ''    <meta name="viewport" content="width=device-width, initial-scale=1" />'',
      ''    <style>'',
      ''      html, body { margin: 0; padding: 0; height: 100%; }'',
      ''      .center { display: grid; place-items: center; height: 100%; font: 16px system-ui; }'',
      ''    </style>'',
      ''  </head>'',
      ''  <body>'',
      ''    <div class="center">Click the canvas to edit and paste your code.</div>'',
      ''    <script>'',
      ''      // You can paste your JS here. Include script tags to load libraries if needed.'',
      ''      // Example: simple animation without external libs'',
      ''      const el = document.querySelector('.center');'',
      ''      let t = 0;'',
      ''      setInterval(() => { el.style.transform = 'scale(' + (1 + 0.05*Math.sin(t)) + ')'; t += 0.2; }, 30);'',
      ''    </script>'',
      ''  </body>'',
      ''</html>'']\<close>

definition mermaid_head_lines :: "string list" where
  \<open>mermaid_head_lines =
     [''<!doctype html>'',
      ''<html>'',
      ''  <head>'',
      ''    <meta charset="utf-8" />'',
      ''    <meta name="viewport" content="width=device-width, initial-scale=1" />'',
      ''    <title>Mermaid Diagram</title>'',
      ''    <script src="https://cdn.jsdelivr.net/npm/mermaid@10.6.1/dist/mermaid.min.js"></script>'',
      ''    <style>'',
      ''      * { box-sizing: border-box; }'',
      ''      html, body { margin: 0; height: 100%; background: #f8fafc; font-family: system-ui, -apple-system, sans-serif; }'',
      ''      .container { padding: 20px; max-width: 100%; margin: 0 auto; }'',
      ''      .mermaid { text-align: center; }'',
      ''    </style>'',
      ''  </head>'',
      ''  <body>'',
      ''    <div class="container">'',
      ''      <div class="mermaid">'']\<close>

definition mermaid_tail_lines :: "string list" where
  \<open>mermaid_tail_lines =
     [''      </div>'',
      ''    </div>'',
      ''    <script>'',
      ''      mermaid.initialize({ '',
      ''        startOnLoad: true,'',
      ''        theme: 'default','',
      ''        flowchart: { useMaxWidth: true, htmlLabels: true },'',
      ''        sequence: { useMaxWidth: true },'',
      ''        class: { useMaxWidth: true }'',
      ''      });'',
      ''    </script>'',
      ''  </body>'',
      ''</html>'']\<close>

definition defaultBlankSnippet :: string where
  "defaultBlankSnippet = join_nl defaultBlankSnippet_lines"

text \<open>The document template around the diagram markup, which stands on a line of its own.\<close>

definition mermaid_document :: "string \<Rightarrow> string" where
  "mermaid_document m =
     join_nl mermaid_head_lines @ [CHR 0x0A] @ m @ [CHR 0x0A] @ join_nl mermaid_tail_lines"

text \<open>
  An optional string property is tested by its truthiness: \<open>undefined\<close> and the empty
  string are both false.
\<close>

definition truthy :: "string option \<Rightarrow> bool" where
  "truthy v = (case v of None \<Rightarrow> False | Some s \<Rightarrow> s \<noteq> [])"

definition srcDoc :: "string option \<Rightarrow> string option \<Rightarrow> string" where
  "srcDoc mermaid animationCode =
     (if truthy mermaid then mermaid_document (the mermaid)
      else if truthy animationCode then the animationCode
      else defaultBlankSnippet)"

text \<open>
  The frame that \<open>UnifiedCanvas\<close> renders: its \<open>sandbox\<close> attribute and its document.
  \<open>AnimationCanvas\<close> is the frame of the earlier version of the component, for the custom
  content alone (\<^verbatim>\<open>code ?? defaultBlankSnippet\<close>).
\<close>

record Iframe =
  sandbox :: string
  srcDoc_attr :: string

definition UnifiedCanvas :: "string option \<Rightarrow> string option \<Rightarrow> Iframe" where
  "UnifiedCanvas mermaid animationCode =
     \<lparr>sandbox = ''allow-scripts allow-same-origin'', srcDoc_attr = srcDoc mermaid animationCode\<rparr>"

definition AnimationCanvas :: "string option \<Rightarrow> Iframe" where
  "AnimationCanvas c =
     \<lparr>sandbox = ''allow-scripts allow-same-origin'',
      srcDoc_attr = (case c of None \<Rightarrow> defaultBlankSnippet | Some s \<Rightarrow> s)\<rparr>"

text \<open>
  What the attribute means is fixed by the HTML standard, not by the component. The
  attribute is a set of space-separated tokens. Scripts run in the frame when the token
  \<^verbatim>\<open>allow-scripts\<close> is there. The frame's document is forced into an opaque origin,
  which is what keeps it from the embedding page (its DOM, storage and cookies), unless
  the token \<^verbatim>\<open>allow-same-origin\<close> is there; a \<^verbatim>\<open>srcdoc\<close> document otherwise has
  the origin of the page that embeds it.
\<close>

definition is_html_space :: "char \<Rightarrow> bool" where
  "is_html_space c = (c \<in> set [CHR 0x09, CHR 0x0A, CHR 0x0C, CHR 0x0D, CHR 0x20])"

function tokens :: "string \<Rightarrow> string list" where
  "tokens s =
     (let r = dropWhile is_html_space s
      in if r = [] then []
         else takeWhile (\<lambda>c. \<not> is_html_space c) r
              # tokens (dropWhile (\<lambda>c. \<not> is_html_space c) r))"
  by pat_completeness auto
termination
proof (relation "measure length", goal_cases)
  case 1
  show ?case by simp
next
  case (2 s r)
  then have "r \<noteq> []" and r: "r = dropWhile is_html_space s"
    by simp_all
  then have "\<not> is_html_space (hd r)"
    using hd_dropWhile [of is_html_space s] by simp
  then have "dropWhile (\<lambda>c. \<not> is_html_space c) r = dropWhile (\<lambda>c. \<not> is_html_space c) (tl r)"
    using \<open>r \<noteq> []\<close> by (cases r) simp_all
  moreover have "length (dropWhile (\<lambda>c. \<not> is_html_space c) (tl r)) \<le> length (tl r)"
    by (rule length_dropWhile_le)
  ultimately have "length (dropWhile (\<lambda>c. \<not> is_html_space c) r) \<le> length (tl r)"
    by simp
  moreover have "length (tl r) < length r"
    using \<open>r \<noteq> []\<close> by (cases r) simp_all
  moreover have "length r \<le> length s"
    by (simp add: r length_dropWhile_le)
  ultimately show ?case by simp
qed

declare tokens.simps [simp del]

definition scripts_allowed :: "Iframe \<Rightarrow> bool" where
  "scripts_allowed f = (''allow-scripts'' \<in> set (tokens (sandbox f)))"

definition opaque_origin :: "Iframe \<Rightarrow> bool" where
  "opaque_origin f = (''allow-same-origin'' \<notin> set (tokens (sandbox f)))"

section \<open>The generation orchestrator\<close>

text \<open>
  The state of \<open>MarkdownAnimator\<close>: its five state variables, and with them what the
  runtime holds for it: the calls of \<open>generateMermaidDiagram\<close> that are suspended at
  their \<^verbatim>\<open>await\<close> (by the section they were started for, oldest first) and the alerts
  shown so far.
\<close>

record AppState =
  rawMarkdown :: string
  sections :: "Section list"
  editingSectionId :: "string option"
  tempCode :: string
  generatingMermaid :: "string option"
  suspended :: "string list"
  alerts :: "string list"

text \<open>
  What the service answers to one request: the \<^verbatim>\<open>fetch\<close> fails, or gives a response
  with its \<open>ok\<close> flag and, when it has a body, the chunks of the body as text and
  whether the stream ends (\<open>True\<close>) or a read fails after them.
\<close>

record Response =
  ok :: bool
  response_body :: "(string list \<times> bool) option"

definition setMermaidCode :: "string \<Rightarrow> string \<Rightarrow> Section list \<Rightarrow> Section list" where
  "setMermaidCode sectionId m secs =
     map (\<lambda>s. if section_id s = sectionId then s\<lparr>mermaidCode := Some m\<rparr> else s) secs"

text \<open>
  \<open>generateMermaidDiagram\<close> up to its first \<^verbatim>\<open>await\<close>: it returns at once when no
  section has the identifier, and otherwise records the identifier as the current
  generation and suspends on the request.
\<close>

definition generateMermaidDiagram_start :: "string \<Rightarrow> AppState \<Rightarrow> AppState" where
  "generateMermaidDiagram_start sectionId st =
     (case find (\<lambda>s. section_id s = sectionId) (sections st) of
        None \<Rightarrow> st
      | Some sec \<Rightarrow>
          st\<lparr>generatingMermaid := Some sectionId, suspended := suspended st @ [sectionId]\<rparr>)"

text \<open>
  The text that the \<^verbatim>\<open>try\<close> block computes from the answer, or the exception that
  takes it to the \<^verbatim>\<open>catch\<close> clause.
\<close>

definition receive :: "(string \<Rightarrow> error + json) \<Rightarrow> error + Response \<Rightarrow> error + string" where
  "receive parse answer =
     (case answer of
        Inl e \<Rightarrow> Inl e
      | Inr resp \<Rightarrow>
          if \<not> ok resp then Inl (HttpError ''Failed to generate diagram'')
          else
            (case response_body resp of
               None \<Rightarrow> Inl (HttpError ''No response body'')
             | Some (chunks, finished) \<Rightarrow>
                 if finished then Inr (cleanMermaid (decodeChunks parse chunks))
                 else Inl NetworkError))"

text \<open>
  The rest of the call for \<open>sectionId\<close>, run when its answer arrives: the section is
  patched on success, an alert is shown on failure, and the \<^verbatim>\<open>finally\<close> clause clears
  the current generation either way.
\<close>

definition generateMermaidDiagram_resume ::
  "(string \<Rightarrow> error + json) \<Rightarrow> string \<Rightarrow> error + Response \<Rightarrow> AppState \<Rightarrow> AppState" where
  "generateMermaidDiagram_resume parse sectionId answer st =
     (let st' = (case receive parse answer of
                   Inr m \<Rightarrow> st\<lparr>sections := setMermaidCode sectionId m (sections st)\<rparr>
                 | Inl e \<Rightarrow>
                     st\<lparr>alerts := alerts st @ [''Failed to generate diagram. Please try again.'']\<rparr>)
      in st'\<lparr>generatingMermaid := None, suspended := remove1 sectionId (suspended st')\<rparr>)"

text \<open>
  The button of a section: it is disabled while the current generation is that very
  section, and starts a generation otherwise.
\<close>

definition clickGenerate :: "string \<Rightarrow> AppState \<Rightarrow> AppState" where
  "clickGenerate sectionId st =
     (if generatingMermaid st = Some sectionId then st
      else generateMermaidDiagram_start sectionId st)"

text \<open>A state with two sections and nothing in flight, for the examples.\<close>

definition two_sections :: AppState where
  "two_sections =
     \<lparr>rawMarkdown = ''# A'' @ [CHR 0x0A] @ ''# B'',
      sections =
        [\<lparr>section_id = ''0-1700000000000'', heading = ''A'', body = [], code = None,
           mermaidCode = None\<rparr>,
         \<lparr>section_id = ''1-1700000000000'', heading = ''B'', body = [], code = None,
           mermaidCode = None\<rparr>],
      editingSectionId = None, tempCode = [], generatingMermaid = None,
      suspended = [], alerts = []\<rparr>"

definition one_delta :: "string list" where
  \<open>one_delta = [''0:{"type":"text-delta","textDelta":"graph TD"}'' @ [CHR 0x0A]]\<close>

section \<open>The heuristic diagram of a section\<close>

















section \<open>Properties of the splitter\<close>

lemma is_ws_simps [simp]:
  "is_ws (CHR 0x0A)" "is_ws (CHR 0x0D)" "is_ws (CHR '' '')" "is_ws (CHR 0x09)"
  by (simp_all add: is_ws_def)

lemma trim_Nil [simp]: "trim [] = []"
  by (simp add: trim_def)

lemma headingMatch_Nil [simp]: "headingMatch [] = None"
  by (simp add: headingMatch_def heading_regex_def)

subsection \<open>The empty text\<close>

text \<open>
  C4. The empty text splits into one empty line, which is not a heading line and so
  opens the implicit section: \<open>splitMarkdownIntoSections\<close> returns one section, headed
  Introduction, with an empty body, and not the empty sequence.
\<close>

theorem segment_empty_one_section:
  "map content (splitMarkdownIntoSections now '''') = [(''Introduction'', '''')]
   \<and> splitMarkdownIntoSections now '''' \<noteq> []"
  by (simp add: splitMarkdownIntoSections_def pushCurrent_def newSection_def content_def
      trim_def)

subsection \<open>A heading line without a heading\<close>

lemma match_hash_two_spaces:
  "match_seq heading_regex ''#  '' = Some [''#'', '' '', '' '']"
  by (simp add: heading_regex_def is_hash_def is_dot_def is_lt_def)

text \<open>
  C10. There is a line of one to six hash signs followed by two or more whitespace
  characters and nothing else that the heading rule accepts: the whitespace item gives
  its last character back and the text group takes it. The line is a hash sign and two
  spaces; the section it opens has the empty heading.
\<close>

theorem heading_rule_blank_heading:
  "\<exists>n ws. 1 \<le> n \<and> n \<le> 6 \<and> 2 \<le> length ws \<and> list_all is_ws ws
      \<and> match_seq heading_regex (replicate n (CHR ''#'') @ ws)
          = Some [replicate n (CHR ''#''), butlast ws, [last ws]]
      \<and> headingMatch (replicate n (CHR ''#'') @ ws) = Some (replicate n (CHR ''#''), [last ws])
      \<and> map content (splitMarkdownIntoSections now (replicate n (CHR ''#'') @ ws)) = [('''', '''')]"
proof -
  have "headingMatch ''#  '' = Some (''#'', '' '')"
    by (simp add: headingMatch_def match_hash_two_spaces)
  moreover from this
  have "map content (splitMarkdownIntoSections now ''#  '') = [('''', '''')]"
    by (simp add: splitMarkdownIntoSections_def pushCurrent_def
        newSection_def content_def trim_def cons_first_def)
  ultimately show ?thesis
    using match_hash_two_spaces
    by (intro exI [of _ "1::nat"] exI [of _ "''  ''"]) simp
qed

section \<open>Properties of the stream decoder\<close>

subsection \<open>Lines of a chunk\<close>

lemma split_nl_not_Nil [simp]: "split_nl s \<noteq> []"
  by (induction s) (auto simp: cons_first_def split: list.splits)

lemma cons_first_append: "ls \<noteq> [] \<Longrightarrow> cons_first c (ls @ ms) = cons_first c ls @ ms"
  by (cases ls) (simp_all add: cons_first_def)

lemma cons_first_Cons [simp]: "cons_first c (l # ls) = (c # l) # ls"
  by (simp add: cons_first_def)

lemma split_nl_append_LF: "split_nl (x @ CHR 0x0A # y) = split_nl x @ split_nl y"
  by (induction x) (simp_all add: cons_first_append)

lemma split_nl_no_LF: "CHR 0x0A \<notin> set l \<Longrightarrow> split_nl l = [l]"
  by (induction l) auto

lemma split_nl_line_LF:
  "CHR 0x0A \<notin> set l \<Longrightarrow> split_nl (l @ CHR 0x0A # y) = l # split_nl y"
  by (simp add: split_nl_append_LF split_nl_no_LF)

lemma split_nl_join_nl:
  "ls \<noteq> [] \<Longrightarrow> \<forall>l\<in>set ls. CHR 0x0A \<notin> set l \<Longrightarrow> split_nl (join_nl ls) = ls"
proof (induction ls rule: join_nl.induct)
  case 1
  then show ?case by simp
next
  case (2 l)
  then show ?case by (simp add: split_nl_no_LF)
next
  case (3 l m ls)
  then show ?case by (simp add: split_nl_line_LF)
qed

subsection \<open>Lines that are dropped\<close>

lemma processLine_empty [simp]: "processLine parse acc [] = acc"
  by (simp add: processLine_def)

lemma processLine_caught: "tryLine parse acc l = Inl e \<Longrightarrow> processLine parse acc l = acc"
  by (simp add: processLine_def)

lemma processLine_dropped:
  "\<not> prefix ''0:'' l \<or> parse (drop 2 l) = Inl e \<Longrightarrow> processLine parse acc l = acc"
  by (auto simp: processLine_def tryLine_def)

lemma decodeChunks_append:
  "decodeChunks parse (earlier @ c # later)
     = foldl (processChunk parse) (processChunk parse (decodeChunks parse earlier) c) later"
  by (simp add: decodeChunks_def)

text \<open>
  C8. A line that does not start with the marker, or whose remainder the parser refuses,
  leaves the decoded text as it is, whatever parser the engine has; so does any line
  whose processing throws. Hence such a line, put anywhere among the lines of any chunk
  of a stream, does not change the result of the decoder; and the decoder, a total
  function, gives a result for every stream.
\<close>

theorem bad_line_dropped:
  assumes bad: "\<not> prefix ''0:'' l \<or> parse (drop 2 l) = Inl e"
    and l: "CHR 0x0A \<notin> set l"
    and ls: "\<forall>x\<in>set (pre @ post). CHR 0x0A \<notin> set x"
  shows "processLine parse acc l = acc
     \<and> (tryLine parse acc l' = Inl e' \<longrightarrow> processLine parse acc l' = acc)
     \<and> decodeChunks parse (earlier @ join_nl (pre @ l # post) # later)
         = decodeChunks parse (earlier @ join_nl (pre @ post) # later)"
proof -
  have drop: "processLine parse a l = a" for a
    using bad by (rule processLine_dropped)
  have "split_nl (join_nl (pre @ l # post)) = pre @ l # post"
    using l ls by (intro split_nl_join_nl) auto
  then have with_l: "processChunk parse a (join_nl (pre @ l # post))
      = foldl (processLine parse) a (pre @ post)" for a
    by (simp add: processChunk_def drop)
  have without: "processChunk parse a (join_nl (pre @ post))
      = foldl (processLine parse) a (pre @ post)" for a
  proof (cases "pre @ post = []")
    case True
    then show ?thesis by (simp add: processChunk_def)
  next
    case False
    then have "split_nl (join_nl (pre @ post)) = pre @ post"
      using ls by (intro split_nl_join_nl) auto
    then show ?thesis by (simp add: processChunk_def)
  qed
  show ?thesis
    by (simp add: drop processLine_caught decodeChunks_append with_l without)
qed

theorem bad_line_dropped_witness:
  \<open>decodeChunks JSON_parse
      [join_nl [''0:{"type":"text-delta","textDelta":"Hi"}'', ''e:{"finishReason":"stop"}'',
                ''0:{"type":"text-delta","textDelta":" there"}'']]
    = decodeChunks JSON_parse
      [join_nl [''0:{"type":"text-delta","textDelta":"Hi"}'',
                ''0:{"type":"text-delta","textDelta":" there"}'']]
    \<and> decodeChunks JSON_parse
      [join_nl [''0:{"type":"text-delta","textDelta":"Hi"}'', ''0:{"type":"text-delta",'',
                ''0:{"type":"text-delta","textDelta":" there"}'']]
    = decodeChunks JSON_parse
      [join_nl [''0:{"type":"text-delta","textDelta":"Hi"}'',
                ''0:{"type":"text-delta","textDelta":" there"}'']]\<close>
proof -
  have p: \<open>JSON_parse (drop 2 ''0:{"type":"text-delta",'') = Inl SyntaxError\<close>
    by code_simp
  show ?thesis
    using bad_line_dropped [where l = \<open>''e:{"finishReason":"stop"}''\<close> and parse = JSON_parse
        and e = SyntaxError and pre = \<open>[''0:{"type":"text-delta","textDelta":"Hi"}'']\<close>
        and post = \<open>[''0:{"type":"text-delta","textDelta":" there"}'']\<close>
        and earlier = "[]" and later = "[]"]
      bad_line_dropped [where l = \<open>''0:{"type":"text-delta",''\<close> and parse = JSON_parse
        and e = SyntaxError and pre = \<open>[''0:{"type":"text-delta","textDelta":"Hi"}'']\<close>
        and post = \<open>[''0:{"type":"text-delta","textDelta":" there"}'']\<close>
        and earlier = "[]" and later = "[]"] p
    by simp
qed

subsection \<open>Chunk boundaries\<close>

lemma processChunk_Nil [simp]: "processChunk parse acc [] = acc"
  by (simp add: processChunk_def)

lemma processChunk_append:
  assumes "c = [] \<or> last c = CHR 0x0A"
  shows "processChunk parse acc (c @ d) = processChunk parse (processChunk parse acc c) d"
proof (cases "c = []")
  case True
  then show ?thesis by simp
next
  case False
  with assms obtain x where c: "c = x @ [CHR 0x0A]"
    by (metis append_butlast_last_id)
  have "split_nl c = split_nl x @ [[]]"
    unfolding c by (simp add: split_nl_append_LF)
  moreover have "split_nl (c @ d) = split_nl x @ split_nl d"
    unfolding c by (simp add: split_nl_append_LF)
  ultimately show ?thesis
    by (simp add: processChunk_def)
qed

lemma foldl_processChunk_concat:
  "\<forall>c\<in>set chunks. c = [] \<or> last c = CHR 0x0A \<Longrightarrow>
     foldl (processChunk parse) acc chunks = processChunk parse acc (concat chunks)"
proof (induction chunks arbitrary: acc)
  case Nil
  then show ?case by simp
next
  case (Cons c chunks)
  then show ?case by (simp add: processChunk_append)
qed

text \<open>
  The stream of the specification's example, cut in the middle of its second line: the
  decoder returns the text of the first line alone. The same text in one chunk gives both
  deltas.
\<close>

theorem split_line_counterexample:
  \<open>decodeChunks JSON_parse
      [''0:{"type":"text-delta","textDelta":"Hi"}'' @ [CHR 0x0A] @ ''0:{'',
       ''"type":"text-delta","textDelta":" there"}'' @ [CHR 0x0A]] = ''Hi''
    \<and> decodeChunks JSON_parse
      [''0:{"type":"text-delta","textDelta":"Hi"}'' @ [CHR 0x0A] @ ''0:{''
       @ ''"type":"text-delta","textDelta":" there"}'' @ [CHR 0x0A]] = ''Hi there''\<close>
  by code_simp

lemma processLine_lineDelta: "processLine parse acc l = acc @ lineDelta parse l"
  by (auto simp: processLine_def tryLine_def lineDelta_def split: sum.splits option.splits)

lemma foldl_processLine_deltas:
  "foldl (processLine parse) acc ls = acc @ concat (map (lineDelta parse) ls)"
  by (induction ls arbitrary: acc) (simp_all add: processLine_lineDelta)

lemma lineDelta_string:
  assumes "prefix ''0:'' l" and "parse (drop 2 l) = Inr (JObj ms)"
    and "map_of (rev ms) ''type'' = Some (JStr ''text-delta'')"
    and "map_of (rev ms) ''textDelta'' = Some (JStr d)"
  shows "lineDelta parse l = d"
  using assms by (simp add: lineDelta_def js_get_def js_truthy_def)

text \<open>
  C2, amended. The decoder cuts every chunk into lines by itself and carries no
  unfinished line over to the next chunk. Each line adds its text delta to the end of
  the text decoded so far; for a line that starts with the marker and whose remainder
  parses to an object with \<open>type\<close> \<^verbatim>\<open>text-delta\<close> and a string \<open>textDelta\<close>, the
  delta is that string. So the result is the concatenation, in the order of arrival, of
  the text deltas of the lines of each chunk taken by itself; and when every chunk ends
  at the end of a line, it is the concatenation of the text deltas of all the lines of
  the stream's text.
\<close>

theorem decode_chunks_at_line_ends:
  "processLine parse acc l = acc @ lineDelta parse l
   \<and> (prefix ''0:'' l \<and> parse (drop 2 l) = Inr (JObj ms)
        \<and> map_of (rev ms) ''type'' = Some (JStr ''text-delta'')
        \<and> map_of (rev ms) ''textDelta'' = Some (JStr d) \<longrightarrow> lineDelta parse l = d)
   \<and> decodeChunks parse chunks = concat (map (lineDelta parse) (concat (map split_nl chunks)))
   \<and> ((\<forall>c\<in>set chunks. c = [] \<or> last c = CHR 0x0A) \<longrightarrow>
        decodeChunks parse chunks = concat (map (lineDelta parse) (split_nl (concat chunks))))"
proof -
  have "foldl (processChunk parse) acc chunks
          = foldl (processLine parse) acc (concat (map split_nl chunks))" for acc
    by (induction chunks arbitrary: acc) (simp_all add: processChunk_def)
  then have lines: "decodeChunks parse chunks
      = concat (map (lineDelta parse) (concat (map split_nl chunks)))"
    by (simp add: decodeChunks_def foldl_processLine_deltas)
  have whole: "decodeChunks parse chunks = concat (map (lineDelta parse) (split_nl (concat chunks)))"
    if "\<forall>c\<in>set chunks. c = [] \<or> last c = CHR 0x0A"
  proof -
    from that have "decodeChunks parse chunks = processChunk parse [] (concat chunks)"
      by (simp add: decodeChunks_def foldl_processChunk_concat)
    then show ?thesis
      by (simp add: processChunk_def foldl_processLine_deltas)
  qed
  show ?thesis
    using lines whole lineDelta_string [of l parse ms d]
    by (simp add: processLine_lineDelta)
qed

lemma hi_there_lines:
  \<open>split_nl (concat [''0:{"type":"text-delta","textDelta":"Hi"}'' @ [CHR 0x0A],
       ''0:{"type":"text-delta","textDelta":" there"}'' @ [CHR 0x0A]])
    = [''0:{"type":"text-delta","textDelta":"Hi"}'',
       ''0:{"type":"text-delta","textDelta":" there"}'', []]\<close>
  by simp

lemma hi_parse:
  \<open>JSON_parse (drop 2 ''0:{"type":"text-delta","textDelta":"Hi"}'')
     = Inr (JObj [(''type'', JStr ''text-delta''), (''textDelta'', JStr ''Hi'')])\<close>
  \<open>JSON_parse (drop 2 ''0:{"type":"text-delta","textDelta":" there"}'')
     = Inr (JObj [(''type'', JStr ''text-delta''), (''textDelta'', JStr '' there'')])\<close>
  by code_simp+

theorem decode_chunks_at_line_ends_witness:
  \<open>lineDelta JSON_parse ''0:{"type":"text-delta","textDelta":"Hi"}'' = ''Hi''
    \<and> lineDelta JSON_parse ''0:{"type":"text-delta","textDelta":" there"}'' = '' there''
    \<and> decodeChunks JSON_parse
      [''0:{"type":"text-delta","textDelta":"Hi"}'' @ [CHR 0x0A],
       ''0:{"type":"text-delta","textDelta":" there"}'' @ [CHR 0x0A]]
      = ''Hi there''\<close>
proof -
  have hi: \<open>lineDelta JSON_parse ''0:{"type":"text-delta","textDelta":"Hi"}'' = ''Hi''\<close>
    using decode_chunks_at_line_ends [where parse = JSON_parse
        and l = \<open>''0:{"type":"text-delta","textDelta":"Hi"}''\<close>
        and ms = "[(''type'', JStr ''text-delta''), (''textDelta'', JStr ''Hi'')]"
        and d = "''Hi''"] hi_parse(1)
    by simp
  have there: \<open>lineDelta JSON_parse ''0:{"type":"text-delta","textDelta":" there"}'' = '' there''\<close>
    using decode_chunks_at_line_ends [where parse = JSON_parse
        and l = \<open>''0:{"type":"text-delta","textDelta":" there"}''\<close>
        and ms = "[(''type'', JStr ''text-delta''), (''textDelta'', JStr '' there'')]"
        and d = "'' there''"] hi_parse(2)
    by simp
  have empty: "lineDelta JSON_parse [] = []"
    by (simp add: lineDelta_def)
  have \<open>decodeChunks JSON_parse
      [''0:{"type":"text-delta","textDelta":"Hi"}'' @ [CHR 0x0A],
       ''0:{"type":"text-delta","textDelta":" there"}'' @ [CHR 0x0A]]
      = concat (map (lineDelta JSON_parse)
          (split_nl (concat [''0:{"type":"text-delta","textDelta":"Hi"}'' @ [CHR 0x0A],
             ''0:{"type":"text-delta","textDelta":" there"}'' @ [CHR 0x0A]])))\<close>
    using decode_chunks_at_line_ends [where parse = JSON_parse
        and chunks = \<open>[''0:{"type":"text-delta","textDelta":"Hi"}'' @ [CHR 0x0A],
             ''0:{"type":"text-delta","textDelta":" there"}'' @ [CHR 0x0A]]\<close>,
        THEN conjunct2, THEN conjunct2, THEN conjunct2]
    by simp
  then show ?thesis
    unfolding hi_there_lines using hi there empty by simp
qed

subsection \<open>The clean-up of the decoded text\<close>

lemma js_includes_sublist: "js_includes s pat \<longleftrightarrow> sublist pat s"
  by (induction s) (simp_all add: sublist_Cons_right)

lemma remove_all_fence_hd:
  assumes "remove_all fence s = CHR 0x60 # t"
  shows "\<exists>u. s = CHR 0x60 # u"
proof (cases s)
  case Nil
  with assms show ?thesis by simp
next
  case (Cons c cs)
  show ?thesis
  proof (cases "prefix fence (c # cs)")
    case True
    then show ?thesis by (auto simp: Cons fence_def)
  next
    case False
    with assms show ?thesis by (simp add: Cons)
  qed
qed

lemma remove_all_fence_hd2:
  assumes "remove_all fence s = CHR 0x60 # CHR 0x60 # t"
  shows "\<exists>u. s = CHR 0x60 # CHR 0x60 # u"
proof (cases s)
  case Nil
  with assms show ?thesis by simp
next
  case (Cons c cs)
  show ?thesis
  proof (cases "prefix fence (c # cs)")
    case True
    then show ?thesis by (auto simp: Cons fence_def prefix_def)
  next
    case False
    with assms have "c = CHR 0x60" and "remove_all fence cs = CHR 0x60 # t"
      by (simp_all add: Cons)
    with remove_all_fence_hd [of cs t] show ?thesis
      by (auto simp: Cons)
  qed
qed

lemma remove_all_fence_free: "\<not> sublist fence (remove_all fence s)"
proof (induction fence s rule: remove_all.induct)
  case 1
  show ?case by (simp add: fence_def)
next
  case (2 c cs)
  show ?case
  proof (cases "fence \<noteq> [] \<and> prefix fence (c # cs)")
    case True
    with 2 show ?thesis by simp
  next
    case False
    then have np: "\<not> prefix fence (c # cs)"
      by (simp add: fence_def)
    from False 2 have ih: "\<not> sublist fence (remove_all fence cs)"
      by blast
    have "\<not> prefix fence (c # remove_all fence cs)"
    proof
      assume "prefix fence (c # remove_all fence cs)"
      then obtain t where "c = CHR 0x60" and "remove_all fence cs = CHR 0x60 # CHR 0x60 # t"
        by (auto simp: fence_def prefix_def)
      with remove_all_fence_hd2 [of cs t] np show False
        by (auto simp: fence_def)
    qed
    with ih np show ?thesis
      by (simp add: sublist_Cons_right)
  qed
qed

lemma remove_all_absent: "\<not> sublist pat s \<Longrightarrow> remove_all pat s = s"
proof (induction s)
  case Nil
  then show ?case by simp
next
  case (Cons c cs)
  then show ?case by (auto simp: sublist_Cons_right)
qed

lemma sublist_trim: "sublist (trim s) s"
proof -
  have "prefix (rev (dropWhile is_ws (rev t))) t" for t
  proof -
    have "rev t = takeWhile is_ws (rev t) @ dropWhile is_ws (rev t)"
      by simp
    then have "t = rev (dropWhile is_ws (rev t)) @ rev (takeWhile is_ws (rev t))"
      by (metis rev_append rev_rev_ident)
    then show ?thesis
      by (metis prefixI)
  qed
  then have "prefix (trim s) (dropWhile is_ws s)"
    by (simp add: trim_def)
  moreover have "suffix (dropWhile is_ws s) s"
    by (rule suffix_dropWhile)
  ultimately show ?thesis
    by (meson prefix_imp_sublist suffix_imp_sublist sublist_order.order.trans)
qed

lemma fence_free_trim: "\<not> sublist fence s \<Longrightarrow> \<not> sublist fence (trim s)"
  using sublist_trim sublist_order.order.trans by blast

lemma tagged_fence_absent: "\<not> sublist fence s \<Longrightarrow> \<not> sublist (fence @ tag) s"
  by (meson sublist_appendI sublist_order.order.trans sublist_order.order.refl prefix_imp_sublist prefixI)

text \<open>
  A payload with a fence in its interior: the fence is removed, not kept.
\<close>

theorem interior_fence_counterexample:
  "cleanMermaid (''A'' @ fence @ ''B'') = ''AB'' \<and> cleanChat (''A'' @ fence @ ''B'') = ''AB''"
  by (simp add: cleanMermaid_def cleanChat_def fence_def drop_nl_def trim_def is_ws_def)

section \<open>Properties of the preview renderer\<close>

subsection \<open>Which content is rendered\<close>

text \<open>
  A section whose diagram markup is present but empty, and which has custom content: the
  document is the custom content, not the diagram template. This is the state after a
  generation whose stream carried no text.
\<close>

theorem srcDoc_empty_markup_counterexample:
  "srcDoc (Some '''') (Some ''hello'') = ''hello''
   \<and> srcDoc (Some '''') (Some ''hello'') \<noteq> mermaid_document ''''"
  by (simp add: srcDoc_def truthy_def mermaid_document_def mermaid_head_lines_def)

text \<open>
  C7, amended. Presence is tested by truthiness, so an empty string counts as absent.
  With non-empty diagram markup the document is the diagram template around that markup,
  whatever the custom content is; without it, non-empty custom content is the document
  as it stands; without either, the document is the fixed placeholder.
\<close>

theorem srcDoc_precedence:
  "(m \<noteq> [] \<longrightarrow> srcDoc (Some m) a = mermaid_document m)
   \<and> (\<not> truthy mo \<and> c \<noteq> [] \<longrightarrow> srcDoc mo (Some c) = c)
   \<and> (\<not> truthy mo \<and> \<not> truthy ao \<longrightarrow> srcDoc mo ao = defaultBlankSnippet)"
  by (simp add: srcDoc_def truthy_def)

theorem srcDoc_precedence_witness:
  "srcDoc (Some ''graph TD'') (Some ''hello'') = mermaid_document ''graph TD''
   \<and> srcDoc None (Some ''hello'') = ''hello''
   \<and> srcDoc (Some '''') None = defaultBlankSnippet"
  using srcDoc_precedence [of "''graph TD''" "Some ''hello''" None "''hello''" None]
    srcDoc_precedence [of "''graph TD''" "Some ''hello''" "Some ''''" "''hello''" None]
  by (simp add: truthy_def)

subsection \<open>The sandbox of the frame\<close>

lemma tokens_sandbox:
  "tokens ''allow-scripts allow-same-origin'' = [''allow-scripts'', ''allow-same-origin'']"
  by code_simp

text \<open>
  C3. Whatever the content, the frame of \<open>UnifiedCanvas\<close> (and of \<open>AnimationCanvas\<close>)
  lets scripts run and keeps the origin of the embedding page: its sandbox lists
  \<^verbatim>\<open>allow-same-origin\<close> beside \<^verbatim>\<open>allow-scripts\<close>, so the document is not put into an
  opaque origin and its scripts reach the state of the hosting page.
\<close>

theorem sandbox_keeps_origin:
  "scripts_allowed (UnifiedCanvas m a) \<and> \<not> opaque_origin (UnifiedCanvas m a)
   \<and> scripts_allowed (AnimationCanvas c) \<and> \<not> opaque_origin (AnimationCanvas c)"
  by (simp add: scripts_allowed_def opaque_origin_def UnifiedCanvas_def AnimationCanvas_def
      tokens_sandbox)

section \<open>Properties of the generation orchestrator\<close>

lemma two_sections_simps [simp]:
  "sections two_sections =
     [\<lparr>section_id = ''0-1700000000000'', heading = ''A'', body = [], code = None,
        mermaidCode = None\<rparr>,
      \<lparr>section_id = ''1-1700000000000'', heading = ''B'', body = [], code = None,
        mermaidCode = None\<rparr>]"
  "suspended two_sections = []" "generatingMermaid two_sections = None"
  by (simp_all add: two_sections_def)

lemma decode_one_delta: "decodeChunks JSON_parse one_delta = ''graph TD''"
  by code_simp

lemma clean_graph_TD: "cleanMermaid ''graph TD'' = ''graph TD''"
  by code_simp

text \<open>
  While the generation for the first section is in flight, the button of the second
  section is enabled and its click is accepted: the state changes, the current generation
  becomes the second section, two calls are suspended at once, and the answer to the
  second call writes the second section's diagram markup.
\<close>

theorem second_generation_counterexample:
  "generatingMermaid (clickGenerate ''0-1700000000000'' two_sections) = Some ''0-1700000000000''
   \<and> generatingMermaid
        (clickGenerate ''1-1700000000000'' (clickGenerate ''0-1700000000000'' two_sections))
       = Some ''1-1700000000000''
   \<and> suspended (clickGenerate ''1-1700000000000'' (clickGenerate ''0-1700000000000'' two_sections))
       = [''0-1700000000000'', ''1-1700000000000'']
   \<and> map mermaidCode (sections two_sections) = [None, None]
   \<and> map mermaidCode
        (sections (generateMermaidDiagram_resume JSON_parse ''1-1700000000000''
           (Inr \<lparr>ok = True, response_body = Some (one_delta, True)\<rparr>)
           (clickGenerate ''1-1700000000000'' (clickGenerate ''0-1700000000000'' two_sections))))
       = [None, Some ''graph TD'']"
proof -
  show ?thesis
    by (simp add: clickGenerate_def generateMermaidDiagram_start_def 
        generateMermaidDiagram_resume_def receive_def decode_one_delta clean_graph_TD
        setMermaidCode_def)
qed

text \<open>
  C1, amended. The guard is per section. The button of the section that is recorded as the
  current generation is disabled, and its click changes nothing. The click for any other
  section that exists is accepted while a generation is in flight: it records that
  section as the current generation and suspends one more call, and it leaves the
  sections as they are. When the stream of a call ends, the decoded and cleaned text
  replaces the diagram markup of the section the call was started for.
\<close>

theorem generation_guard_per_section:
  "(generatingMermaid st = Some sid \<longrightarrow> clickGenerate sid st = st)
   \<and> (generatingMermaid st \<noteq> Some sid \<and> find (\<lambda>s. section_id s = sid) (sections st) \<noteq> None \<longrightarrow>
        generatingMermaid (clickGenerate sid st) = Some sid
        \<and> suspended (clickGenerate sid st) = suspended st @ [sid]
        \<and> sections (clickGenerate sid st) = sections st)
   \<and> sections (generateMermaidDiagram_resume parse sid
                  (Inr \<lparr>ok = True, response_body = Some (chunks, True)\<rparr>) st)
       = setMermaidCode sid (cleanMermaid (decodeChunks parse chunks)) (sections st)"
  by (auto simp: clickGenerate_def generateMermaidDiagram_start_def
      generateMermaidDiagram_resume_def receive_def split: option.splits)

theorem generation_guard_per_section_witness:
  "clickGenerate ''0-1700000000000'' (clickGenerate ''0-1700000000000'' two_sections)
     = clickGenerate ''0-1700000000000'' two_sections
   \<and> generatingMermaid
        (clickGenerate ''1-1700000000000'' (clickGenerate ''0-1700000000000'' two_sections))
       = Some ''1-1700000000000''
   \<and> sections (clickGenerate ''1-1700000000000'' (clickGenerate ''0-1700000000000'' two_sections))
       = sections (clickGenerate ''0-1700000000000'' two_sections)"
proof -
  have g: "generatingMermaid (clickGenerate ''0-1700000000000'' two_sections)
             = Some ''0-1700000000000''"
    by (simp add: clickGenerate_def generateMermaidDiagram_start_def)
  have f: "find (\<lambda>s. section_id s = ''1-1700000000000'')
             (sections (clickGenerate ''0-1700000000000'' two_sections)) \<noteq> None"
    by (simp add: clickGenerate_def generateMermaidDiagram_start_def)
  show ?thesis
    using generation_guard_per_section
      [of "clickGenerate ''0-1700000000000'' two_sections" "''0-1700000000000''"]
      generation_guard_per_section
      [of "clickGenerate ''0-1700000000000'' two_sections" "''1-1700000000000''"]
      g f
    by simp
qed

section \<open>Properties of the heuristic diagram\<close>










section \<open>Splitting what was split\<close>

subsection \<open>Trimming\<close>

lemma rev_dropWhile_takeWhile:
  "y = rev (dropWhile P (rev y)) @ rev (takeWhile P (rev y))"
  by (metis rev_append rev_rev_ident takeWhile_dropWhile_id)

lemma dropWhile_all: "list_all P xs \<Longrightarrow> dropWhile P xs = []"
  by (induction xs) simp_all

lemma dropWhile_all_append: "list_all P xs \<Longrightarrow> dropWhile P (xs @ ys) = dropWhile P ys"
  by (induction xs) simp_all

lemma dropWhile_ws_keep: "t \<noteq> [] \<Longrightarrow> \<not> is_ws (hd t) \<Longrightarrow> dropWhile is_ws (t @ b) = t @ b"
  by (cases t) simp_all

lemma trim_all_ws: "list_all is_ws x \<Longrightarrow> trim x = []"
  by (simp add: trim_def dropWhile_all)

lemma trim_ws_around:
  assumes a: "list_all is_ws a" and b: "list_all is_ws b"
    and t: "t = [] \<or> (\<not> is_ws (hd t) \<and> \<not> is_ws (last t))"
  shows "trim (a @ t @ b) = t"
proof (cases "t = []")
  case True
  from a b have "list_all is_ws (a @ b)"
    by simp
  then have "trim (a @ b) = []"
    by (rule trim_all_ws)
  with True show ?thesis
    by simp
next
  case False
  with t have h: "\<not> is_ws (hd t)" and l: "\<not> is_ws (last t)"
    by simp_all
  from a have "dropWhile is_ws (a @ t @ b) = dropWhile is_ws (t @ b)"
    by (rule dropWhile_all_append)
  also have "\<dots> = t @ b"
    using False h by (rule dropWhile_ws_keep)
  finally have 1: "dropWhile is_ws (a @ t @ b) = t @ b" .
  from b have "list_all is_ws (rev b)"
    by simp
  then have "dropWhile is_ws (rev b @ rev t) = dropWhile is_ws (rev t)"
    by (rule dropWhile_all_append)
  also have "\<dots> = rev t"
    using dropWhile_ws_keep [of "rev t" "[]"] False l by (simp add: hd_rev)
  finally have 2: "dropWhile is_ws (rev (t @ b)) = rev t"
    by simp
  show ?thesis
    unfolding trim_def 1 2 by simp
qed

lemma trim_decomp:
  "\<exists>a b. x = a @ trim x @ b \<and> list_all is_ws a \<and> list_all is_ws b"
proof -
  let ?y = "dropWhile is_ws x"
  have y: "?y = trim x @ rev (takeWhile is_ws (rev ?y))"
    unfolding trim_def by (rule rev_dropWhile_takeWhile)
  have "x = takeWhile is_ws x @ ?y"
    by simp
  then have "x = takeWhile is_ws x @ trim x @ rev (takeWhile is_ws (rev ?y))"
    using y by metis
  moreover have "list_all is_ws (takeWhile is_ws x)"
    by (auto simp: list_all_iff dest: set_takeWhileD)
  moreover have "list_all is_ws (rev (takeWhile is_ws (rev ?y)))"
    by (auto simp: list_all_iff dest: set_takeWhileD)
  ultimately show ?thesis
    by blast
qed

lemma trim_hd: "trim x \<noteq> [] \<Longrightarrow> \<not> is_ws (hd (trim x))"
proof -
  assume ne: "trim x \<noteq> []"
  let ?y = "dropWhile is_ws x"
  have y: "?y = trim x @ rev (takeWhile is_ws (rev ?y))"
    unfolding trim_def by (rule rev_dropWhile_takeWhile)
  with ne have "?y \<noteq> []"
    by (metis append_is_Nil_conv)
  then have "\<not> is_ws (hd ?y)"
    by (rule hd_dropWhile)
  moreover from y ne have "hd ?y = hd (trim x)"
    by (metis hd_append2)
  ultimately show ?thesis
    by simp
qed

lemma trim_last: "trim x \<noteq> [] \<Longrightarrow> \<not> is_ws (last (trim x))"
proof -
  assume ne: "trim x \<noteq> []"
  let ?r = "dropWhile is_ws (rev (dropWhile is_ws x))"
  from ne have r: "?r \<noteq> []"
    by (simp add: trim_def)
  then have "\<not> is_ws (hd ?r)"
    by (rule hd_dropWhile)
  moreover have "last (rev ?r) = hd ?r"
    using r by (simp add: last_rev)
  ultimately show ?thesis
    by (simp add: trim_def)
qed

lemma trim_idem [simp]: "trim (trim x) = trim x"
  using trim_ws_around [of "[]" "[]" "trim x"] trim_hd [of x] trim_last [of x]
  by auto

lemma trim_append_ws: "list_all is_ws w \<Longrightarrow> trim (x @ w) = trim x"
proof -
  assume w: "list_all is_ws w"
  obtain a b where x: "x = a @ trim x @ b" and a: "list_all is_ws a" and b: "list_all is_ws b"
    using trim_decomp by blast
  from b w have bw: "list_all is_ws (b @ w)"
    by simp
  have "trim (a @ trim x @ (b @ w)) = trim x"
    using a bw trim_hd [of x] trim_last [of x] by (intro trim_ws_around) auto
  moreover have "x @ w = a @ trim x @ (b @ w)"
    using x by (metis append_assoc)
  ultimately show ?thesis
    by metis
qed

lemma set_trim: "set (trim x) \<subseteq> set x"
  using trim_decomp [of x] by (metis Un_upper1 Un_upper2 set_append subset_trans)

subsection \<open>Lines\<close>

lemma cons_first_not_Nil [simp]: "cons_first c ls \<noteq> []"
  by (cases ls) (simp_all add: cons_first_def)

lemma split_lines_LF: "split_lines (CHR 0x0A # cs) = [] # split_lines cs"
  by simp

lemma split_lines_CRLF: "split_lines (CHR 0x0D # CHR 0x0A # cs) = [] # split_lines cs"
  by simp

lemma split_lines_other:
  "c \<noteq> CHR 0x0A \<Longrightarrow> \<not> (c = CHR 0x0D \<and> prefix [CHR 0x0A] cs) \<Longrightarrow>
     split_lines (c # cs) = cons_first c (split_lines cs)"
  by (cases cs) auto

lemmas split_lines_rules = split_lines_LF split_lines_CRLF split_lines_other

lemma split_lines_cases:
  obtains "s = []"
  | cs where "s = CHR 0x0A # cs"
  | cs where "s = CHR 0x0D # CHR 0x0A # cs"
  | c cs where "s = c # cs" "c \<noteq> CHR 0x0A" "\<not> (c = CHR 0x0D \<and> prefix [CHR 0x0A] cs)"
proof (cases s)
  case Nil
  then show ?thesis using that by simp
next
  case (Cons c cs)
  then show ?thesis using that by (cases cs) auto
qed

lemma split_lines_not_Nil [simp]: "split_lines s \<noteq> []"
  by (cases s rule: split_lines_cases) (simp_all add: split_lines_rules del: split_lines.simps(2))

lemma split_lines_append_LF:
  "x = [] \<or> last x \<noteq> CHR 0x0D \<Longrightarrow> split_lines (x @ CHR 0x0A # y) = split_lines x @ split_lines y"
proof (induction x rule: length_induct)
  case (1 x)
  show ?case
  proof (cases x rule: split_lines_cases)
    case 1
    then show ?thesis by simp
  next
    case (2 cs)
    with 1 have "split_lines (cs @ CHR 0x0A # y) = split_lines cs @ split_lines y"
      by (cases "cs = []") auto
    with 2 show ?thesis
      by (simp add: split_lines_rules del: split_lines.simps(2))
  next
    case (3 cs)
    with 1 have "split_lines (cs @ CHR 0x0A # y) = split_lines cs @ split_lines y"
      by (cases "cs = []") auto
    with 3 show ?thesis
      by (simp add: split_lines_rules del: split_lines.simps(2))
  next
    case (4 c cs)
    with 1 have ih: "split_lines (cs @ CHR 0x0A # y) = split_lines cs @ split_lines y"
      by (cases "cs = []") auto
    have "\<not> (c = CHR 0x0D \<and> prefix [CHR 0x0A] (cs @ CHR 0x0A # y))"
    proof (cases "cs = []")
      case True
      with 4 1 show ?thesis by auto
    next
      case False
      with 4 show ?thesis by (cases cs) auto
    qed
    with 4 have "split_lines ((c # cs) @ CHR 0x0A # y)
        = cons_first c (split_lines (cs @ CHR 0x0A # y))"
      by (simp add: split_lines_other del: split_lines.simps(2))
    with 4 ih show ?thesis
      by (simp add: split_lines_other cons_first_append del: split_lines.simps(2))
  qed
qed

lemma split_lines_single: "list_all is_dot x \<Longrightarrow> split_lines x = [x]"
proof (induction x)
  case Nil
  show ?case by simp
next
  case (Cons c cs)
  then have "c \<noteq> CHR 0x0A" "c \<noteq> CHR 0x0D" and "split_lines cs = [cs]"
    by (auto simp: is_dot_def is_lt_def)
  then show ?case
    by (simp add: split_lines_other cons_first_def del: split_lines.simps(2))
qed

lemma concat_map_cons_first:
  "ls \<noteq> [] \<Longrightarrow> concat (map (\<lambda>l. l @ [CHR 0x0A]) (cons_first c ls))
     = c # concat (map (\<lambda>l. l @ [CHR 0x0A]) ls)"
  by (cases ls) (simp_all add: cons_first_def)

lemma unlines_split_lines:
  "\<not> js_includes b [CHR 0x0D, CHR 0x0A] \<Longrightarrow>
     concat (map (\<lambda>l. l @ [CHR 0x0A]) (split_lines b)) = b @ [CHR 0x0A]"
proof (induction b)
  case Nil
  show ?case by simp
next
  case (Cons c cs)
  then have ih: "concat (map (\<lambda>l. l @ [CHR 0x0A]) (split_lines cs)) = cs @ [CHR 0x0A]"
    and np: "\<not> prefix [CHR 0x0D, CHR 0x0A] (c # cs)"
    by simp_all
  show ?case
  proof (cases "c = CHR 0x0A")
    case True
    with ih show ?thesis by simp
  next
    case False
    moreover from np have "\<not> (c = CHR 0x0D \<and> prefix [CHR 0x0A] cs)"
      by auto
    ultimately have "split_lines (c # cs) = cons_first c (split_lines cs)"
      by (rule split_lines_other)
    with ih show ?thesis
      by (simp add: concat_map_cons_first del: split_lines.simps(2))
  qed
qed

subsection \<open>The heading rule\<close>

lemma takeWhile_all: "list_all P xs \<Longrightarrow> takeWhile P xs = xs"
  by (induction xs) simp_all

lemma match_seq_greedy:
  assumes "lo \<le> k"
    and "k = (case hi of None \<Rightarrow> length (takeWhile p s) | Some m \<Rightarrow> min m (length (takeWhile p s)))"
    and "match_seq items (drop k s) = Some caps"
  shows "match_seq ((p, lo, hi) # items) s = Some (take k s # caps)"
proof -
  have "rev [lo ..< Suc k] = k # rev [lo ..< k]"
    using assms(1) by simp
  then show ?thesis
    using assms(2,3) by (simp add: Let_def del: upt_Suc)
qed

lemma headingMatch_emitted:
  assumes "h \<noteq> []" and "\<not> is_ws (hd h)" and "list_all is_dot h"
  shows "headingMatch (''# '' @ h) = Some (''#'', h)"
proof -
  from assms obtain a t where h: "h = a # t" and a: "\<not> is_ws a"
    by (cases h) auto
  have dots: "takeWhile is_dot h = h"
    using assms(3) by (rule takeWhile_all)
  have "match_seq [] (drop (length h) h) = Some []"
    by simp
  then have "match_seq [(is_dot, 1, None)] h = Some [take (length h) h]"
    using assms(1) by (intro match_seq_greedy) (simp_all add: dots Suc_le_eq)
  then have 3: "match_seq [(is_dot, 1, None)] (drop 1 (CHR '' '' # h)) = Some [h]"
    by simp
  have "match_seq [(is_ws, 1, None), (is_dot, 1, None)] (CHR '' '' # h)
      = Some [take 1 (CHR '' '' # h), h]"
    using 3 by (intro match_seq_greedy) (simp_all add: h a)
  then have 2: "match_seq [(is_ws, 1, None), (is_dot, 1, None)] (drop 1 (''# '' @ h)) = Some ['' '', h]"
    by simp
  have "match_seq heading_regex (''# '' @ h) = Some [take 1 (''# '' @ h), '' '', h]"
    unfolding heading_regex_def using 2
    by (intro match_seq_greedy) (simp_all add: is_hash_def)
  then show ?thesis
    by (simp add: headingMatch_def)
qed

lemma first_some_in: "first_some xs = Some y \<Longrightarrow> Some y \<in> set xs"
  by (induction xs rule: first_some.induct) auto

lemma take_takeWhile: "k \<le> length (takeWhile P s) \<Longrightarrow> list_all P (take k s)"
proof -
  assume k: "k \<le> length (takeWhile P s)"
  have "take k s = take k (takeWhile P s @ dropWhile P s)"
    by simp
  also have "\<dots> = take k (takeWhile P s)"
    using k by (simp del: takeWhile_dropWhile_id)
  finally have "set (take k s) \<subseteq> set (takeWhile P s)"
    by (metis set_take_subset)
  then show ?thesis
    by (auto simp: list_all_iff dest: set_takeWhileD)
qed

lemma match_seq_classes:
  "match_seq items s = Some caps \<Longrightarrow> list_all2 (\<lambda>(p, lo, hi) cap. list_all p cap) items caps"
proof (induction items arbitrary: s caps)
  case Nil
  then show ?case by (simp split: if_splits)
next
  case (Cons it items)
  obtain p lo hi where it: "it = (p, lo, hi)"
    by (cases it)
  define kmax where
    "kmax = (case hi of None \<Rightarrow> length (takeWhile p s) | Some m \<Rightarrow> min m (length (takeWhile p s)))"
  from Cons.prems have "Some caps \<in> set (map (\<lambda>k. map_option ((#) (take k s)) (match_seq items (drop k s)))
      (rev [lo ..< Suc kmax]))"
    unfolding it kmax_def by (intro first_some_in) (simp add: Let_def del: upt_Suc)
  then obtain k where k: "k \<le> kmax"
    and sk: "Some caps = map_option ((#) (take k s)) (match_seq items (drop k s))"
    by (auto simp del: upt_Suc simp: less_Suc_eq_le)
  then obtain caps' where caps: "caps = take k s # caps'"
    and rest: "match_seq items (drop k s) = Some caps'"
    by (cases "match_seq items (drop k s)") auto
  from k have "k \<le> length (takeWhile p s)"
    by (cases hi) (simp_all add: kmax_def)
  then have "list_all p (take k s)"
    by (rule take_takeWhile)
  with Cons.IH [OF rest] show ?case
    by (simp add: it caps)
qed

lemma headingMatch_dots: "headingMatch line = Some (g1, g2) \<Longrightarrow> list_all is_dot g2"
proof -
  assume "headingMatch line = Some (g1, g2)"
  then obtain sp where "match_seq heading_regex line = Some [g1, sp, g2]"
    by (auto simp: headingMatch_def split: option.splits list.splits)
  from match_seq_classes [OF this] show ?thesis
    by (simp add: heading_regex_def)
qed

subsection \<open>The loop of the splitter\<close>

lemma segment_loop_body_lines:
  "list_all (\<lambda>l. headingMatch l = None) ls \<Longrightarrow>
     segment_loop now i secs (Some c) (ls @ rest)
       = segment_loop now (i + length ls) secs
           (Some (c\<lparr>body := body c @ concat (map (\<lambda>l. l @ [CHR 0x0A]) ls)\<rparr>)) rest"
  by (induction ls arbitrary: i c) simp_all

lemma content_pushCurrent_Some:
  "map content (pushCurrent (Some c) secs) = map content secs @ [(heading c, trim (body c))]"
  by (simp add: pushCurrent_def content_def)

lemma tidy_heading_facts:
  assumes "tidy_heading s" and "heading s \<noteq> []"
  shows "\<not> is_ws (hd (heading s))" and "\<not> is_ws (last (heading s))"
  using assms trim_hd [of "heading s"] trim_last [of "heading s"]
  by (simp_all add: tidy_heading_def)

lemma trimmed_last_not_CR:
  assumes "trim b = b"
  shows "b = [] \<or> last b \<noteq> CHR 0x0D"
proof (cases "b = []")
  case True
  then show ?thesis by simp
next
  case False
  with assms trim_last [of b] have "\<not> is_ws (last b)"
    by simp
  then show ?thesis
    by auto
qed

lemma split_lines_reemit_Cons:
  assumes "tidy s" and "heading s \<noteq> []"
  shows "split_lines (reemit (s # S))
     = (''# '' @ heading s) # split_lines (body s) @ split_lines (reemit S)"
proof -
  from assms have dots: "list_all is_dot (heading s)"
    and last_h: "\<not> is_ws (last (heading s))"
    and b: "trim (body s) = body s"
    by (simp_all add: tidy_def tidy_heading_def tidy_heading_facts)
  have "last (''# '' @ heading s) = last (heading s)"
    using assms(2) by simp
  with last_h have 1: "''# '' @ heading s = [] \<or> last (''# '' @ heading s) \<noteq> CHR 0x0D"
    by auto
  have "list_all is_dot (''# '' @ heading s)"
    using dots by (simp add: is_dot_def is_lt_def)
  then have 2: "split_lines (''# '' @ heading s) = [''# '' @ heading s]"
    by (rule split_lines_single)
  have "reemit (s # S)
      = (''# '' @ heading s) @ CHR 0x0A # (body s @ CHR 0x0A # reemit S)"
    by (simp add: reemit_def reemit_section_def)
  then have "split_lines (reemit (s # S))
      = split_lines (''# '' @ heading s) @ split_lines (body s @ CHR 0x0A # reemit S)"
    using split_lines_append_LF [OF 1] by simp
  also have "split_lines (body s @ CHR 0x0A # reemit S)
      = split_lines (body s) @ split_lines (reemit S)"
    using b by (intro split_lines_append_LF trimmed_last_not_CR)
  finally show ?thesis
    using 2 by simp
qed

lemma resegment_loop:
  assumes "list_all tidy S" and "list_all reemittable S" and "S \<noteq> [] \<or> cur \<noteq> None"
  shows "map content (segment_loop now i secs cur (split_lines (reemit S)))
     = map content (pushCurrent cur secs) @ map content S"
  using assms
proof (induction S arbitrary: i secs cur)
  case Nil
  then obtain c where cur: "cur = Some c"
    by auto
  have "trim (body c @ [CHR 0x0A]) = trim (body c)"
    by (intro trim_append_ws) simp
  then show ?case
    by (simp add: cur reemit_def pushCurrent_def content_def)
next
  case (Cons s S)
  then have tidy: "tidy s" and h: "heading s \<noteq> []"
    and crlf: "\<not> js_includes (body s) [CHR 0x0D, CHR 0x0A]"
    and lines: "list_all (\<lambda>l. headingMatch l = None) (split_lines (body s))"
    by (simp_all add: reemittable_def)
  from tidy h have "headingMatch (''# '' @ heading s) = Some (''#'', heading s)"
    by (intro headingMatch_emitted) (simp_all add: tidy_def tidy_heading_facts tidy_heading_def)
  then have hm: "headingMatch (CHR ''#'' # CHR '' '' # heading s) = Some (''#'', heading s)"
    by simp
  from tidy have th: "trim (heading s) = heading s" and tb: "trim (body s) = body s"
    by (simp_all add: tidy_def tidy_heading_def)
  define secs' where "secs' = pushCurrent cur secs"
  define c' where "c' = newSection now i secs' (heading s) []"
  define c'' where "c'' = c'\<lparr>body := body s @ [CHR 0x0A]\<rparr>"
  have "segment_loop now i secs cur (split_lines (reemit (s # S)))
      = segment_loop now (Suc i) secs' (Some c') (split_lines (body s) @ split_lines (reemit S))"
    by (simp add: split_lines_reemit_Cons [OF tidy h] hm th secs'_def c'_def Let_def)
  also have "\<dots> = segment_loop now (Suc i + length (split_lines (body s))) secs' (Some c'')
      (split_lines (reemit S))"
    using segment_loop_body_lines [OF lines] unlines_split_lines [OF crlf]
    by (simp add: c''_def c'_def newSection_def)
  finally have "map content (segment_loop now i secs cur (split_lines (reemit (s # S))))
      = map content (pushCurrent (Some c'') secs') @ map content S"
    using Cons.IH [of "Some c''"] Cons.prems by simp
  moreover have "trim (body s @ [CHR 0x0A]) = body s"
    using trim_append_ws [of "[CHR 0x0A]" "body s"] tb by simp
  moreover have "content s = (heading s, body s)"
    by (simp add: content_def)
  ultimately show ?case
    by (simp add: content_pushCurrent_Some c''_def c'_def newSection_def secs'_def)
qed

subsection \<open>What the splitter returns\<close>

lemma tidy_pushCurrent:
  "list_all tidy secs \<Longrightarrow> (case cur of None \<Rightarrow> True | Some c \<Rightarrow> tidy_heading c) \<Longrightarrow>
     list_all tidy (pushCurrent cur secs)"
  by (cases cur) (simp_all add: pushCurrent_def tidy_def tidy_heading_def)

lemma tidy_heading_Introduction: "tidy_heading (newSection now i secs ''Introduction'' b)"
  by (simp add: tidy_heading_def newSection_def trim_def is_ws_def is_dot_def is_lt_def)

lemma tidy_heading_matched:
  assumes "headingMatch line = Some (g1, g2)"
  shows "tidy_heading (newSection now i secs (trim g2) b)"
proof -
  from assms have "list_all is_dot g2"
    by (rule headingMatch_dots)
  with set_trim [of g2] have "list_all is_dot (trim g2)"
    by (auto simp: list_all_iff)
  then show ?thesis
    by (simp add: tidy_heading_def newSection_def)
qed

lemma segment_loop_tidy:
  "list_all tidy secs \<Longrightarrow> (case cur of None \<Rightarrow> True | Some c \<Rightarrow> tidy_heading c) \<Longrightarrow>
     list_all tidy (segment_loop now i secs cur lines)"
proof (induction lines arbitrary: i secs cur)
  case Nil
  then show ?case by (simp add: tidy_pushCurrent)
next
  case (Cons line lines)
  show ?case
  proof (cases "headingMatch line")
    case None
    show ?thesis
    proof (cases cur)
      case cn: None
      show ?thesis
        using Cons.prems None cn by (simp add: Cons.IH tidy_heading_Introduction)
    next
      case (Some c)
      with Cons.prems have "tidy_heading (c\<lparr>body := body c @ line @ [CHR 0x0A]\<rparr>)"
        by (simp add: tidy_heading_def)
      with Cons.prems None Some show ?thesis
        by (simp add: Cons.IH)
    qed
  next
    case (Some g)
    obtain g1 g2 where g: "g = (g1, g2)"
      by (cases g)
    from Cons.prems have "list_all tidy (pushCurrent cur secs)"
      by (rule tidy_pushCurrent)
    with Some g show ?thesis
      by (simp add: Let_def Cons.IH tidy_heading_matched [of line g1 g2])
  qed
qed

lemma segment_loop_not_Nil:
  "lines \<noteq> [] \<or> cur \<noteq> None \<Longrightarrow> segment_loop now i secs cur lines \<noteq> []"
proof (induction lines arbitrary: i secs cur)
  case Nil
  then show ?case by (auto simp: pushCurrent_def)
next
  case (Cons line lines)
  then show ?case
    by (auto simp: Let_def split: option.splits)
qed

lemma splitMarkdownIntoSections_tidy: "list_all tidy (splitMarkdownIntoSections now md)"
  by (simp add: splitMarkdownIntoSections_def segment_loop_tidy)

lemma splitMarkdownIntoSections_not_Nil: "splitMarkdownIntoSections now md \<noteq> []"
  by (simp add: splitMarkdownIntoSections_def segment_loop_not_Nil)

text \<open>
  C5, amended. When every section that the splitter returns is \<open>reemittable\<close> (its
  heading is not empty, its body holds no CR directly before an LF, and no line of its
  body is a heading line), writing the sections out in order, each as a heading line
  followed by its body, and splitting that text gives sections with the same headings
  and bodies, whatever the clock and so the identifiers.
\<close>

theorem resegment_reemitted:
  assumes "list_all reemittable (splitMarkdownIntoSections now md)"
  shows "map content (splitMarkdownIntoSections now' (reemit (splitMarkdownIntoSections now md)))
     = map content (splitMarkdownIntoSections now md)"
  using resegment_loop [OF splitMarkdownIntoSections_tidy assms, of None now' 0 "[]"]
    splitMarkdownIntoSections_not_Nil [of now md]
  by (simp add: splitMarkdownIntoSections_def pushCurrent_def)

lemmas splitter_eval =
  splitMarkdownIntoSections_def headingMatch_def heading_regex_def is_hash_def is_dot_def
  is_lt_def is_ws_def pushCurrent_def newSection_def trim_def cons_first_def reemit_def
  reemit_section_def

lemma indented_heading_first:
  "splitMarkdownIntoSections (\<lambda>i. 0) (''# A'' @ [CHR 0x0A] @ '' # B'')
     = [\<lparr>section_id = dec 0 @ ''-'' @ dec 0, heading = ''A'', body = ''# B'', code = None,
         mermaidCode = None\<rparr>]"
  by (simp add: splitter_eval)

lemma blank_heading_first:
  "splitMarkdownIntoSections (\<lambda>i. 0) ''#  ''
     = [\<lparr>section_id = dec 0 @ ''-'' @ dec 0, heading = '''', body = '''', code = None,
         mermaidCode = None\<rparr>]"
  by (simp add: splitter_eval)

lemma crlf_body_first:
  "splitMarkdownIntoSections (\<lambda>i. 0) (''# H'' @ [CHR 0x0A] @ ''a'' @ [CHR 0x0D, CHR 0x0D, CHR 0x0A] @ ''b'')
     = [\<lparr>section_id = dec 0 @ ''-'' @ dec 0, heading = ''H'',
         body = ''a'' @ [CHR 0x0D, CHR 0x0A] @ ''b'', code = None, mermaidCode = None\<rparr>]"
  by (simp add: splitter_eval)

text \<open>
  Three texts whose sections do not come back. An indented line with a hash sign is body
  text, but heads the body once the body is trimmed, and is a heading line when the
  sections are written out and split again. A heading line without a heading gives the
  empty heading, and the line written for it is not a heading line. A CR before the
  separator CR LF stays in the body, where it forms a separator with the LF that joins
  the lines.
\<close>

theorem resegment_counterexample:
  "map content (splitMarkdownIntoSections (\<lambda>i. 0) (''# A'' @ [CHR 0x0A] @ '' # B''))
     = [(''A'', ''# B'')]
   \<and> map content (splitMarkdownIntoSections (\<lambda>i. 0)
        (reemit (splitMarkdownIntoSections (\<lambda>i. 0) (''# A'' @ [CHR 0x0A] @ '' # B''))))
     = [(''A'', ''''), (''B'', '''')]
   \<and> map content (splitMarkdownIntoSections (\<lambda>i. 0) ''#  '') = [('''', '''')]
   \<and> map content (splitMarkdownIntoSections (\<lambda>i. 0)
        (reemit (splitMarkdownIntoSections (\<lambda>i. 0) ''#  '')))
     = [(''Introduction'', ''#'')]
   \<and> map content (splitMarkdownIntoSections (\<lambda>i. 0)
        (''# H'' @ [CHR 0x0A] @ ''a'' @ [CHR 0x0D, CHR 0x0D, CHR 0x0A] @ ''b''))
     = [(''H'', ''a'' @ [CHR 0x0D, CHR 0x0A] @ ''b'')]
   \<and> map content (splitMarkdownIntoSections (\<lambda>i. 0)
        (reemit (splitMarkdownIntoSections (\<lambda>i. 0)
          (''# H'' @ [CHR 0x0A] @ ''a'' @ [CHR 0x0D, CHR 0x0D, CHR 0x0A] @ ''b''))))
     = [(''H'', ''a'' @ [CHR 0x0A] @ ''b'')]"
  unfolding indented_heading_first blank_heading_first crlf_body_first
  by (simp add: splitter_eval content_def)

lemma intro_first:
  "splitMarkdownIntoSections (\<lambda>i. 0) (''intro text'' @ [CHR 0x0A] @ ''# H1'' @ [CHR 0x0A] @ ''body'')
     = [\<lparr>section_id = dec 0 @ ''-'' @ dec 0, heading = ''Introduction'', body = ''intro text'',
         code = None, mermaidCode = None\<rparr>,
        \<lparr>section_id = dec (Suc 0) @ ''-'' @ dec 0, heading = ''H1'', body = ''body'', code = None,
         mermaidCode = None\<rparr>]"
  by (simp add: splitter_eval)

theorem resegment_reemitted_witness:
  "list_all reemittable
     (splitMarkdownIntoSections (\<lambda>i. 0) (''intro text'' @ [CHR 0x0A] @ ''# H1'' @ [CHR 0x0A] @ ''body''))
   \<and> map content (splitMarkdownIntoSections (\<lambda>i. 1)
        (reemit (splitMarkdownIntoSections (\<lambda>i. 0)
          (''intro text'' @ [CHR 0x0A] @ ''# H1'' @ [CHR 0x0A] @ ''body''))))
     = [(''Introduction'', ''intro text''), (''H1'', ''body'')]"
proof -
  have r: "list_all reemittable
     (splitMarkdownIntoSections (\<lambda>i. 0) (''intro text'' @ [CHR 0x0A] @ ''# H1'' @ [CHR 0x0A] @ ''body''))"
    unfolding intro_first
    by (simp add: reemittable_def headingMatch_def heading_regex_def is_hash_def cons_first_def)
  from resegment_reemitted [OF r, of "\<lambda>i. 1"] r show ?thesis
    unfolding intro_first by (simp add: content_def)
qed


section \<open>The clean-up on marked payloads\<close>

subsection \<open>One pass over plain text and over a marker\<close>

lemma remove_all_plain:
  "plain t \<Longrightarrow> remove_all (CHR 0x60 # p) (t @ s) = t @ remove_all (CHR 0x60 # p) s"
  by (induction t) (simp_all add: plain_def)

lemma remove_all_plain_only: "plain t \<Longrightarrow> remove_all (CHR 0x60 # p) t = t"
  using remove_all_plain [of t p "[]"] by simp

lemma remove_all_at: "pat \<noteq> [] \<Longrightarrow> remove_all pat (pat @ s) = remove_all pat (drop_nl s)"
  by (cases pat) simp_all

lemma remove_all_skip_fence:
  assumes "tg \<noteq> []" and "hd tg \<noteq> CHR 0x60" and "\<not> prefix tg z"
    and "z = [] \<or> hd z \<noteq> CHR 0x60 \<or> prefix fence z"
  shows "remove_all (fence @ tg) (fence @ z) = fence @ remove_all (fence @ tg) z"
proof -
  from assms(1,2) obtain g gs where tg: "tg = g # gs" and g: "g \<noteq> CHR 0x60"
    by (cases tg) auto
  from assms(4) consider "z = []" | c w where "z = c # w" "c \<noteq> CHR 0x60"
    | w where "z = CHR 0x60 # CHR 0x60 # CHR 0x60 # w"
    by (cases z) (auto simp: fence_def prefix_def)
  then show ?thesis
  proof cases
    case 1
    then show ?thesis by (simp add: fence_def tg)
  next
    case 2
    with assms(3) show ?thesis by (auto simp: fence_def tg)
  next
    case 3
    with assms(3) g show ?thesis by (auto simp: fence_def tg)
  qed
qed

lemma fenced_append: "fenced u ps = u @ fenced [] ps"
  by (cases ps) auto

lemma fenced_head:
  "plain u \<Longrightarrow> fenced u ps = [] \<or> hd (fenced u ps) \<noteq> CHR 0x60 \<or> prefix fence (fenced u ps)"
  by (cases u; cases ps) (auto simp: plain_def fence_def)

lemma prefix_tag_fenced:
  assumes "plain u" and "plain tg" and "prefix tg (fenced u ps)"
  shows "prefix tg u"
proof (cases ps)
  case Nil
  with assms show ?thesis by simp
next
  case (Cons p rest)
  obtain tag w where p: "p = (tag, w)"
    by (cases p)
  from assms(3) have "prefix tg (u @ CHR 0x60 # (CHR 0x60 # CHR 0x60 # tag @ fenced w rest))"
    by (simp add: Cons p fence_def)
  then consider "prefix tg u"
    | us where "tg = u @ us" "prefix us (CHR 0x60 # (CHR 0x60 # CHR 0x60 # tag @ fenced w rest))"
    unfolding prefix_append by blast
  then show ?thesis
  proof cases
    case 1
    then show ?thesis .
  next
    case 2
    with assms(2) have "us = []"
      by (cases us) (auto simp: plain_def)
    with 2 show ?thesis by simp
  qed
qed

lemma drop_nl_fenced: "drop_nl (fenced u ps) = fenced (drop_nl u) ps"
proof (cases u)
  case Nil
  then show ?thesis
    by (cases ps) (auto simp: drop_nl_def fence_def)
next
  case (Cons c cs)
  have "fenced (c # cs) ps = c # fenced cs ps"
    by (cases ps) auto
  moreover have "fenced (drop_nl (c # cs)) ps = (if c = CHR 0x0A then fenced cs ps else c # fenced cs ps)"
    by (cases ps) (auto simp: drop_nl_def)
  ultimately show ?thesis
    by (simp add: Cons drop_nl_def)
qed

lemma plain_drop_nl: "plain u \<Longrightarrow> plain (drop_nl u)"
  by (cases u) (auto simp: plain_def drop_nl_def)

lemma drop_nl_append: "u \<noteq> [] \<Longrightarrow> drop_nl (u @ x) = drop_nl u @ x"
  by (cases u) (simp_all add: drop_nl_def)

lemma drop_nl_Nil [simp]: "drop_nl [] = []"
  by (simp add: drop_nl_def)

lemma drop_nl_fence: "drop_nl (fence @ x) = fence @ x"
  by (simp add: drop_nl_def fence_def)

lemma plain_literals [simp]: "plain ''mermaid''" "plain ''html''" "plain []"
  by (simp_all add: plain_def)

lemma remove_all_plain_fence:
  "plain t \<Longrightarrow> remove_all (fence @ tg) (t @ s) = t @ remove_all (fence @ tg) s"
  using remove_all_plain [of t "CHR 0x60 # CHR 0x60 # tg" s] by (simp add: fence_def)

lemma remove_all_at_fence:
  "remove_all (fence @ tg) (fence @ tg @ s) = remove_all (fence @ tg) (drop_nl s)"
  using remove_all_at [of "fence @ tg" s] by (simp add: fence_def)

lemma remove_all_bare_at: "remove_all fence (fence @ s) = remove_all fence (drop_nl s)"
  using remove_all_at_fence [of "[]" s] by simp

lemma remove_all_bare_plain: "plain t \<Longrightarrow> remove_all fence (t @ s) = t @ remove_all fence s"
  using remove_all_plain_fence [of t "[]" s] by simp

subsection \<open>The pass for the fence tagged mermaid\<close>

lemma mermaid_pass_bare:
  assumes "plain u" and "\<not> prefix ''mermaid'' u"
  shows "remove_all (fence @ ''mermaid'') (fence @ fenced u ps)
     = fence @ remove_all (fence @ ''mermaid'') (fenced u ps)"
proof (rule remove_all_skip_fence)
  show "''mermaid'' \<noteq> []" and "hd ''mermaid'' \<noteq> CHR 0x60"
    by simp_all
  show "\<not> prefix ''mermaid'' (fenced u ps)"
    using assms prefix_tag_fenced [of u "''mermaid''" ps] by auto
  show "fenced u ps = [] \<or> hd (fenced u ps) \<noteq> CHR 0x60 \<or> prefix fence (fenced u ps)"
    using assms(1) by (rule fenced_head)
qed

lemma mermaid_pass_html:
  "remove_all (fence @ ''mermaid'') (fence @ ''html'' @ z)
     = fence @ ''html'' @ remove_all (fence @ ''mermaid'') z"
proof -
  have "remove_all (fence @ ''mermaid'') (fence @ (''html'' @ z))
      = fence @ remove_all (fence @ ''mermaid'') (''html'' @ z)"
    by (rule remove_all_skip_fence) simp_all
  then show ?thesis
    using remove_all_plain_fence [of "''html''" "''mermaid''" z] by simp
qed

lemma mermaid_pass_nonempty:
  assumes "plain u"
  shows "remove_all (fence @ ''mermaid'') (fenced u ps)
     = u @ remove_all (fence @ ''mermaid'') (fenced [] ps)"
  using assms fenced_append [of u ps] remove_all_plain_fence [of u "''mermaid''" "fenced [] ps"]
  by simp

lemma mermaid_pass_drop_nonempty:
  assumes "plain u" and "u \<noteq> []"
  shows "drop_nl (remove_all (fence @ ''mermaid'') (fenced u ps))
     = remove_all (fence @ ''mermaid'') (fenced (drop_nl u) ps)"
  using assms mermaid_pass_nonempty [of u ps] mermaid_pass_nonempty [of "drop_nl u" ps]
  by (simp add: plain_drop_nl drop_nl_append)

lemma mermaid_pass_drop:
  assumes "plain u" and "marked_mermaid ps" and "u \<noteq> [] \<or> next_tag_not [''mermaid''] ps"
  shows "drop_nl (remove_all (fence @ ''mermaid'') (fenced u ps))
     = remove_all (fence @ ''mermaid'') (fenced (drop_nl u) ps)"
proof (cases "u = []")
  case False
  with assms(1) show ?thesis by (rule mermaid_pass_drop_nonempty)
next
  case True
  show ?thesis
  proof (cases ps)
    case Nil
    with True show ?thesis by simp
  next
    case (Cons p rest)
    obtain tag w where p: "p = (tag, w)"
      by (cases p)
    from assms True Cons p have "tag = []" and "plain w" and "\<not> prefix ''mermaid'' w"
      by (auto simp: next_tag_not_def)
    then have "remove_all (fence @ ''mermaid'') (fenced [] ps)
        = fence @ remove_all (fence @ ''mermaid'') (fenced w rest)"
      using mermaid_pass_bare [of w rest] by (simp add: Cons p)
    with True show ?thesis
      by (simp add: drop_nl_fence)
  qed
qed

lemma cleanMermaid_marked:
  "plain t \<Longrightarrow> marked_mermaid ps \<Longrightarrow>
     remove_all fence (remove_all (fence @ ''mermaid'') (fenced t ps)) = unfenced t ps"
proof (induction ps arbitrary: t)
  case Nil
  then show ?case
    using remove_all_plain_fence [of t "''mermaid''" "[]"] remove_all_bare_plain [of t "[]"]
    by simp
next
  case (Cons p ps)
  obtain tag u where p: "p = (tag, u)"
    by (cases p)
  from Cons.prems p have u: "plain u" and ps: "marked_mermaid ps"
    by simp_all
  have ih: "remove_all fence (remove_all (fence @ ''mermaid'') (fenced (drop_nl u) ps))
      = unfenced (drop_nl u) ps"
    using u ps by (intro Cons.IH plain_drop_nl)
  show ?case
  proof (cases "tag = ''mermaid''")
    case True
    have "remove_all (fence @ ''mermaid'') (fenced t (p # ps))
        = t @ remove_all (fence @ ''mermaid'') (fenced (drop_nl u) ps)"
      using Cons.prems(1) remove_all_plain_fence [of t "''mermaid''" "fence @ ''mermaid'' @ fenced u ps"]
        remove_all_at_fence [of "''mermaid''" "fenced u ps"]
      by (simp add: p True drop_nl_fenced)
    then show ?thesis
      using Cons.prems(1) ih by (simp add: p remove_all_bare_plain)
  next
    case False
    with Cons.prems p have tag: "tag = []" and np: "\<not> prefix ''mermaid'' u"
      and nx: "u \<noteq> [] \<or> next_tag_not [''mermaid''] ps"
      by auto
    have "remove_all (fence @ ''mermaid'') (fenced t (p # ps))
        = t @ fence @ remove_all (fence @ ''mermaid'') (fenced u ps)"
      using Cons.prems(1) remove_all_plain_fence [of t "''mermaid''" "fence @ fenced u ps"]
        mermaid_pass_bare [OF u np, of ps]
      by (simp add: p tag)
    then have "remove_all fence (remove_all (fence @ ''mermaid'') (fenced t (p # ps)))
        = t @ remove_all fence (drop_nl (remove_all (fence @ ''mermaid'') (fenced u ps)))"
      using Cons.prems(1) by (simp add: remove_all_bare_plain remove_all_bare_at)
    then show ?thesis
      using mermaid_pass_drop [OF u ps nx] ih by (simp add: p)
  qed
qed

subsection \<open>The passes of the chat clean-up\<close>

lemma html_pass_nonempty:
  assumes "plain u"
  shows "remove_all (fence @ ''html'') (remove_all (fence @ ''mermaid'') (fenced u ps))
     = u @ remove_all (fence @ ''html'') (remove_all (fence @ ''mermaid'') (fenced [] ps))"
  using assms mermaid_pass_nonempty [of u ps]
    remove_all_plain_fence [of u "''html''" "remove_all (fence @ ''mermaid'') (fenced [] ps)"]
  by simp

lemma chat_pass_drop1:
  assumes "plain u" and "marked_chat ps" and "u \<noteq> [] \<or> next_tag_not [''mermaid''] ps"
  shows "drop_nl (remove_all (fence @ ''mermaid'') (fenced u ps))
     = remove_all (fence @ ''mermaid'') (fenced (drop_nl u) ps)"
proof (cases "u = []")
  case False
  with assms(1) show ?thesis by (rule mermaid_pass_drop_nonempty)
next
  case True
  show ?thesis
  proof (cases ps)
    case Nil
    with True show ?thesis by simp
  next
    case (Cons p rest)
    obtain tag w where p: "p = (tag, w)"
      by (cases p)
    from assms True Cons p have w: "plain w"
      and tag: "tag = ''html'' \<or> (tag = [] \<and> \<not> prefix ''mermaid'' w)"
      by (auto simp: next_tag_not_def)
    have "\<exists>x. remove_all (fence @ ''mermaid'') (fenced [] ps) = fence @ x"
    proof (cases "tag = ''html''")
      case True
      then show ?thesis
        using mermaid_pass_html [of "fenced w rest"] by (simp add: Cons p)
    next
      case False
      with tag w show ?thesis
        using mermaid_pass_bare [of w rest] by (simp add: Cons p)
    qed
    with True show ?thesis
      by (auto simp: drop_nl_fence)
  qed
qed

lemma bare_after_mermaid_pass:
  assumes "plain u" and "\<not> prefix ''mermaid'' u" and "\<not> prefix ''h'' u"
    and "marked_chat ps" and "u \<noteq> [] \<or> next_tag_not [''mermaid'', ''html''] ps"
  defines "r \<equiv> remove_all (fence @ ''mermaid'') (fenced u ps)"
  shows "\<not> prefix ''html'' r" and "r = [] \<or> hd r \<noteq> CHR 0x60 \<or> prefix fence r"
proof -
  have "\<not> prefix ''html'' r \<and> (r = [] \<or> hd r \<noteq> CHR 0x60 \<or> prefix fence r)"
  proof (cases u)
    case (Cons c cs)
    with assms(1,3) have "c \<noteq> CHR 0x60" and "c \<noteq> CHR ''h''"
      by (auto simp: plain_def)
    moreover have "r = c # cs @ remove_all (fence @ ''mermaid'') (fenced [] ps)"
      unfolding r_def using mermaid_pass_nonempty [OF assms(1), of ps] Cons by simp
    ultimately show ?thesis
      by simp
  next
    case Nil
    show ?thesis
    proof (cases ps)
      case ps: Nil
      with Nil show ?thesis by (simp add: r_def)
    next
      case (Cons p rest)
      obtain tag w where p: "p = (tag, w)"
        by (cases p)
      from assms(4,5) Nil Cons p have "tag = []" and "plain w" and "\<not> prefix ''mermaid'' w"
        by (auto simp: next_tag_not_def)
      then have "r = fence @ remove_all (fence @ ''mermaid'') (fenced w rest)"
        unfolding r_def using mermaid_pass_bare [of w rest] by (simp add: Nil Cons p)
      then show ?thesis
        by (simp add: fence_def)
    qed
  qed
  then show "\<not> prefix ''html'' r" and "r = [] \<or> hd r \<noteq> CHR 0x60 \<or> prefix fence r"
    by simp_all
qed

lemma html_pass_bare:
  assumes "plain u" and "\<not> prefix ''mermaid'' u" and "\<not> prefix ''h'' u"
    and "marked_chat ps" and "u \<noteq> [] \<or> next_tag_not [''mermaid'', ''html''] ps"
  shows "remove_all (fence @ ''html'') (remove_all (fence @ ''mermaid'') (fence @ fenced u ps))
     = fence @ remove_all (fence @ ''html'') (remove_all (fence @ ''mermaid'') (fenced u ps))"
proof -
  have "remove_all (fence @ ''html'') (fence @ remove_all (fence @ ''mermaid'') (fenced u ps))
      = fence @ remove_all (fence @ ''html'') (remove_all (fence @ ''mermaid'') (fenced u ps))"
    using bare_after_mermaid_pass [OF assms]
    by (intro remove_all_skip_fence) simp_all
  then show ?thesis
    using mermaid_pass_bare [OF assms(1,2), of ps] by simp
qed

lemma chat_pass_drop2:
  assumes "plain u" and "marked_chat ps" and "u \<noteq> [] \<or> next_tag_not [''mermaid'', ''html''] ps"
  shows "drop_nl (remove_all (fence @ ''html'') (remove_all (fence @ ''mermaid'') (fenced u ps)))
     = remove_all (fence @ ''html'') (remove_all (fence @ ''mermaid'') (fenced (drop_nl u) ps))"
proof (cases "u = []")
  case False
  with assms(1) show ?thesis
    using html_pass_nonempty [of u ps] html_pass_nonempty [of "drop_nl u" ps]
    by (simp add: plain_drop_nl drop_nl_append)
next
  case True
  show ?thesis
  proof (cases ps)
    case Nil
    with True show ?thesis by simp
  next
    case (Cons p rest)
    obtain tag w where p: "p = (tag, w)"
      by (cases p)
    from assms True Cons p have "tag = []" and "plain w" and "\<not> prefix ''mermaid'' w"
      and "\<not> prefix ''h'' w" and "marked_chat rest"
      and "w \<noteq> [] \<or> next_tag_not [''mermaid'', ''html''] rest"
      by (auto simp: next_tag_not_def)
    then have "remove_all (fence @ ''html'') (remove_all (fence @ ''mermaid'') (fenced [] ps))
        = fence @ remove_all (fence @ ''html'') (remove_all (fence @ ''mermaid'') (fenced w rest))"
      using html_pass_bare [of w rest] by (simp add: Cons p)
    with True show ?thesis
      by (simp add: drop_nl_fence)
  qed
qed

lemma cleanChat_marked:
  "plain t \<Longrightarrow> marked_chat ps \<Longrightarrow>
     remove_all fence (remove_all (fence @ ''html'') (remove_all (fence @ ''mermaid'') (fenced t ps)))
       = unfenced t ps"
proof (induction ps arbitrary: t)
  case Nil
  then show ?case
    using remove_all_plain_fence [of t "''mermaid''" "[]"] remove_all_plain_fence [of t "''html''" "[]"]
      remove_all_bare_plain [of t "[]"]
    by simp
next
  case (Cons p ps)
  obtain tag u where p: "p = (tag, u)"
    by (cases p)
  from Cons.prems p have u: "plain u" and ps: "marked_chat ps"
    by simp_all
  note t = Cons.prems(1)
  have ih: "remove_all fence (remove_all (fence @ ''html'')
        (remove_all (fence @ ''mermaid'') (fenced (drop_nl u) ps))) = unfenced (drop_nl u) ps"
    using u ps by (intro Cons.IH plain_drop_nl)
  from Cons.prems p consider (m) "tag = ''mermaid''"
    | (h) "tag = ''html''" "u \<noteq> [] \<or> next_tag_not [''mermaid''] ps"
    | (b) "tag = []" "\<not> prefix ''mermaid'' u" "\<not> prefix ''h'' u"
        "u \<noteq> [] \<or> next_tag_not [''mermaid'', ''html''] ps"
    by auto
  then show ?case
  proof cases
    case m
    have "remove_all (fence @ ''mermaid'') (fenced t (p # ps))
        = t @ remove_all (fence @ ''mermaid'') (fenced (drop_nl u) ps)"
      using t remove_all_plain_fence [of t "''mermaid''" "fence @ ''mermaid'' @ fenced u ps"]
        remove_all_at_fence [of "''mermaid''" "fenced u ps"]
      by (simp add: p m drop_nl_fenced)
    then show ?thesis
      using t ih by (simp add: p remove_all_plain_fence remove_all_bare_plain)
  next
    case h
    have "remove_all (fence @ ''mermaid'') (fenced t (p # ps))
        = t @ fence @ ''html'' @ remove_all (fence @ ''mermaid'') (fenced u ps)"
      using t remove_all_plain_fence [of t "''mermaid''" "fence @ ''html'' @ fenced u ps"]
        mermaid_pass_html [of "fenced u ps"]
      by (simp add: p h)
    then have "remove_all (fence @ ''html'') (remove_all (fence @ ''mermaid'') (fenced t (p # ps)))
        = t @ remove_all (fence @ ''html'')
            (drop_nl (remove_all (fence @ ''mermaid'') (fenced u ps)))"
      using t remove_all_plain_fence [of t "''html''"
          "fence @ ''html'' @ remove_all (fence @ ''mermaid'') (fenced u ps)"]
        remove_all_at_fence [of "''html''" "remove_all (fence @ ''mermaid'') (fenced u ps)"]
      by simp
    then show ?thesis
      using t ih chat_pass_drop1 [OF u ps h(2)] by (simp add: p remove_all_bare_plain)
  next
    case b
    have "remove_all (fence @ ''html'') (remove_all (fence @ ''mermaid'') (fenced t (p # ps)))
        = t @ fence @ remove_all (fence @ ''html'') (remove_all (fence @ ''mermaid'') (fenced u ps))"
      using t remove_all_plain_fence [of t "''mermaid''" "fence @ fenced u ps"]
        mermaid_pass_bare [OF u b(2), of ps]
        remove_all_plain_fence [of t "''html''"
          "fence @ remove_all (fence @ ''mermaid'') (fenced u ps)"]
        html_pass_bare [OF u b(2,3) ps b(4)]
      by (simp add: p b(1))
    then have "remove_all fence (remove_all (fence @ ''html'')
          (remove_all (fence @ ''mermaid'') (fenced t (p # ps))))
        = t @ remove_all fence (drop_nl (remove_all (fence @ ''html'')
            (remove_all (fence @ ''mermaid'') (fenced u ps))))"
      using t by (simp add: remove_all_bare_plain remove_all_bare_at)
    then show ?thesis
      using ih chat_pass_drop2 [OF u ps b(4)] by (simp add: p)
  qed
qed

subsection \<open>What the clean-up leaves\<close>

text \<open>
  C6, amended. The clean-up removes every fence marker in the payload, leading, trailing
  or interior, and then the whitespace at both ends. The result of either clean-up holds
  no run of three backticks, and a payload that holds none is only trimmed. On a payload
  whose backticks all belong to markers, \<open>cleanMermaid\<close> takes out each fence, with its
  tag when the tag is mermaid and with the one LF that directly follows it, keeps all
  the text between the markers, and trims the result; \<open>cleanChat\<close> does the same and
  takes out the tag html as well.
\<close>

theorem clean_removes_every_fence:
  "\<not> js_includes (cleanMermaid s) fence \<and> \<not> js_includes (cleanChat s) fence
   \<and> (\<not> js_includes s fence \<longrightarrow> cleanMermaid s = trim s \<and> cleanChat s = trim s)
   \<and> (plain t \<and> marked_mermaid ps \<longrightarrow> cleanMermaid (fenced t ps) = trim (unfenced t ps))
   \<and> (plain t \<and> marked_chat qs \<longrightarrow> cleanChat (fenced t qs) = trim (unfenced t qs))"
  by (simp add: js_includes_sublist cleanMermaid_def cleanChat_def fence_free_trim
      remove_all_fence_free remove_all_absent tagged_fence_absent cleanMermaid_marked
      cleanChat_marked)

theorem clean_removes_every_fence_witness:
  "cleanMermaid (fence @ ''mermaid'' @ [CHR 0x0A] @ ''graph TD'' @ [CHR 0x0A] @ fence) = ''graph TD''
   \<and> cleanMermaid (''A'' @ fence @ [CHR 0x0A] @ ''B'') = ''AB''
   \<and> cleanChat (fence @ ''html'' @ [CHR 0x0A] @ ''<p>hi</p>'' @ [CHR 0x0A] @ fence) = ''<p>hi</p>''
   \<and> cleanMermaid (fence @ ''html'' @ [CHR 0x0A] @ ''<p>hi</p>'' @ [CHR 0x0A] @ fence)
       = ''html'' @ [CHR 0x0A] @ ''<p>hi</p>''
   \<and> cleanMermaid '' graph TD '' = ''graph TD''
   \<and> \<not> js_includes (cleanChat (''A'' @ fence @ fence @ ''B'')) fence"
proof -
  have tr: "trim (''graph TD'' @ [CHR 0x0A]) = ''graph TD''" "trim ''AB'' = ''AB''"
    "trim (''<p>hi</p>'' @ [CHR 0x0A]) = ''<p>hi</p>''"
    "trim (''html'' @ [CHR 0x0A] @ ''<p>hi</p>'' @ [CHR 0x0A]) = ''html'' @ [CHR 0x0A] @ ''<p>hi</p>''"
    "trim '' graph TD '' = ''graph TD''"
    by (simp_all add: trim_def is_ws_def)
  have nf: "\<not> js_includes '' graph TD '' fence"
    by (simp add: fence_def)
  show ?thesis
    using clean_removes_every_fence
      [where t = "[]" and ps = "[(''mermaid'', [CHR 0x0A] @ ''graph TD'' @ [CHR 0x0A]), ([], [])]"
        and qs = "[(''html'', [CHR 0x0A] @ ''<p>hi</p>'' @ [CHR 0x0A]), ([], [])]"
        and s = "'' graph TD ''"]
      clean_removes_every_fence
      [where t = "''A''" and ps = "[([], [CHR 0x0A] @ ''B'')]" and qs = "[]"
        and s = "''A'' @ fence @ fence @ ''B''"]
      clean_removes_every_fence
      [where t = "[]" and ps = "[([], ''html'' @ [CHR 0x0A] @ ''<p>hi</p>'' @ [CHR 0x0A]), ([], [])]"
        and qs = "[]" and s = "[]"]
      nf tr
    by (simp add: plain_def next_tag_not_def drop_nl_def)
qed

end
